theory Spec2Isabelle
  imports Complex_Main "HOL-Library.Word"
begin

unbundle bit_operations_syntax

section \<open>Machine types\<close>

text \<open>
  A native double is modelled by its IEEE-754 binary64 bit pattern (what
  \<^verbatim>\<open>fp64_get_bits\<close> reads through the union), a 64-bit word. The 64-bit
  integers of the source are 64-bit words as well: \<^verbatim>\<open>uint64_t\<close> read with
  \<open>unat\<close>/\<open>uint\<close>, \<^verbatim>\<open>int64_t\<close> read with \<open>sint\<close> and compared with the signed
  orders \<open><s\<close> and \<open>\<le>s\<close>. Arithmetic on them wraps around, as the two's
  complement hardware does (C leaves signed overflow undefined; theorems that
  depend on the absence of overflow say so in a hypothesis). C's \<^verbatim>\<open>int\<close> is a
  32-bit word.
\<close>

type_synonym fp64_t = "64 word"
type_synonym int64_t = "64 word"
type_synonym uint64_t = "64 word"
type_synonym c_int = "32 word"

section \<open>fp.h: the bit layout of a double\<close>

definition FP64_EXP_OFFSET :: nat where
  "FP64_EXP_OFFSET = 52"

definition FP64_SIGN_OFFSET :: nat where
  "FP64_SIGN_OFFSET = 63"

definition FP64_EXP_MASK :: uint64_t where
  "FP64_EXP_MASK = 0x7ff"

definition FP64_BIAS :: int64_t where
  "FP64_BIAS = 0x3ff"

definition FP64_MAX_EXPONENT :: uint64_t where
  "FP64_MAX_EXPONENT = FP64_EXP_MASK - FP64_BIAS - 1"

definition fp64_get_bits :: "fp64_t \<Rightarrow> uint64_t" where
  "fp64_get_bits x = x"

definition fp64_from_bits :: "uint64_t \<Rightarrow> fp64_t" where
  "fp64_from_bits bx = bx"

definition fp64_get_biased_exponent :: "fp64_t \<Rightarrow> uint64_t" where
  "fp64_get_biased_exponent x =
     (let bx = fp64_get_bits x in drop_bit FP64_EXP_OFFSET bx AND FP64_EXP_MASK)"

definition fp64_get_exponent :: "fp64_t \<Rightarrow> int64_t" where
  "fp64_get_exponent x =
     (let bexp = fp64_get_biased_exponent x in bexp - FP64_BIAS)"

definition fp64_get_sign :: "fp64_t \<Rightarrow> uint64_t" where
  "fp64_get_sign x =
     (let bx = fp64_get_bits x in drop_bit FP64_SIGN_OFFSET bx AND 0x1)"

definition fp64_get_fraction :: "fp64_t \<Rightarrow> uint64_t" where
  "fp64_get_fraction x =
     (let bx = fp64_get_bits x;
          umask = push_bit FP64_EXP_OFFSET 1 - 1
      in bx AND umask)"

definition fp64_exponent_below :: "int64_t \<Rightarrow> bool" where
  "fp64_exponent_below e = (e \<le>s - FP64_BIAS)"

definition fp64_exponent_above :: "int64_t \<Rightarrow> bool" where
  "fp64_exponent_above e = (FP64_EXP_MASK - FP64_BIAS \<le>s e)"

definition fp64_assemble :: "uint64_t \<Rightarrow> int64_t \<Rightarrow> uint64_t \<Rightarrow> fp64_t" where
  "fp64_assemble sign e frc =
     (let bexp = e + FP64_BIAS;
          bx = frc;
          bx = bx + push_bit FP64_EXP_OFFSET bexp;
          bx = bx + push_bit FP64_SIGN_OFFSET sign
      in fp64_from_bits bx)"

definition fp64_replace_exponent :: "fp64_t \<Rightarrow> int64_t \<Rightarrow> fp64_t" where
  "fp64_replace_exponent x e =
     (let bexp = e + FP64_BIAS;
          bexp = push_bit FP64_EXP_OFFSET bexp;
          bx = fp64_get_bits x;
          mask = NOT (push_bit FP64_EXP_OFFSET FP64_EXP_MASK);
          bx = bx AND mask;
          bx = bx + bexp
      in fp64_from_bits bx)"

definition fp64_zero_exponent :: "fp64_t \<Rightarrow> fp64_t" where
  "fp64_zero_exponent x =
     (let bexp = push_bit FP64_EXP_OFFSET FP64_BIAS;
          bx = fp64_get_bits x;
          mask = NOT (push_bit FP64_EXP_OFFSET FP64_EXP_MASK);
          bx = bx AND mask;
          bx = bx + bexp
      in fp64_from_bits bx)"

text \<open>The \<^verbatim>\<open>int\<close> argument is converted to \<^verbatim>\<open>uint64_t\<close> (sign extension) at the
  call of \<^verbatim>\<open>fp64_assemble\<close>.\<close>

definition fp64_infinity :: "c_int \<Rightarrow> fp64_t" where
  "fp64_infinity sign = fp64_assemble (scast sign) (FP64_EXP_MASK - FP64_BIAS) 0"

definition fp64_power2 :: "int64_t \<Rightarrow> fp64_t" where
  "fp64_power2 p = (if p \<le>s - FP64_BIAS then 0 else fp64_assemble 0 p 0)"


section \<open>IEEE-754 binary64 semantics of the C operators on doubles\<close>

text \<open>
  The source compares and multiplies doubles with the C operators and calls
  \<^verbatim>\<open>fabs\<close> and \<^verbatim>\<open>fma\<close>; their meaning is fixed by IEEE 754 (round to nearest,
  ties to even). They are defined here on bit patterns. A finite double with
  biased exponent \<open>b\<close> and fraction \<open>f\<close> has magnitude \<open>fp64_mant * 2 ^ fp64_expo\<close>:
  \<open>(2^52 + f) * 2^(b - 1075)\<close> when \<open>b > 0\<close> and \<open>f * 2^(-1074)\<close> when \<open>b = 0\<close>.
\<close>

definition fp64_isnan :: "fp64_t \<Rightarrow> bool" where
  "fp64_isnan x = (fp64_get_biased_exponent x = 0x7ff \<and> fp64_get_fraction x \<noteq> 0)"

definition fp64_isinf :: "fp64_t \<Rightarrow> bool" where
  "fp64_isinf x = (fp64_get_biased_exponent x = 0x7ff \<and> fp64_get_fraction x = 0)"

definition fp64_fabs :: "fp64_t \<Rightarrow> fp64_t" where
  "fp64_fabs x = x AND 0x7fffffffffffffff"

definition fp64_iszero :: "fp64_t \<Rightarrow> bool" where
  "fp64_iszero x = (fp64_fabs x = 0)"

definition fp64_neg :: "fp64_t \<Rightarrow> fp64_t" where
  "fp64_neg x = x XOR 0x8000000000000000"

text \<open>The position of a non-NaN double on the real line, up to a monotone map:
  the magnitude bits, negated under the sign bit. Both zeros have key 0.\<close>

definition fp64_key :: "fp64_t \<Rightarrow> int" where
  "fp64_key x = (if fp64_get_sign x = 1 then - uint (fp64_fabs x) else uint (fp64_fabs x))"

definition fp64_lt :: "fp64_t \<Rightarrow> fp64_t \<Rightarrow> bool" where
  "fp64_lt x y = (\<not> fp64_isnan x \<and> \<not> fp64_isnan y \<and> fp64_key x < fp64_key y)"

definition fp64_le :: "fp64_t \<Rightarrow> fp64_t \<Rightarrow> bool" where
  "fp64_le x y = (\<not> fp64_isnan x \<and> \<not> fp64_isnan y \<and> fp64_key x \<le> fp64_key y)"

definition fp64_gt :: "fp64_t \<Rightarrow> fp64_t \<Rightarrow> bool" where
  "fp64_gt x y = fp64_lt y x"

definition fp64_ge :: "fp64_t \<Rightarrow> fp64_t \<Rightarrow> bool" where
  "fp64_ge x y = fp64_le y x"

definition fp64_eq :: "fp64_t \<Rightarrow> fp64_t \<Rightarrow> bool" where
  "fp64_eq x y = (\<not> fp64_isnan x \<and> \<not> fp64_isnan y \<and> fp64_key x = fp64_key y)"

definition fp64_mant :: "fp64_t \<Rightarrow> int" where
  "fp64_mant x =
     (if fp64_get_biased_exponent x = 0 then uint (fp64_get_fraction x)
      else 2 ^ 52 + uint (fp64_get_fraction x))"

definition fp64_expo :: "fp64_t \<Rightarrow> int" where
  "fp64_expo x =
     (if fp64_get_biased_exponent x = 0 then - 1074
      else uint (fp64_get_biased_exponent x) - 1075)"

text \<open>Number of binary digits of a positive integer.\<close>

function nbits :: "int \<Rightarrow> nat" where
  "nbits n = (if n \<le> 0 then 0 else Suc (nbits (n div 2)))"
  by pat_completeness auto
termination
  by (relation "measure nat") auto

declare nbits.simps [simp del]

text \<open>\<open>floor_log2 num den\<close> is the \<open>e\<close> with \<open>2^e \<le> num/den < 2^(e+1)\<close>, for
  positive \<open>num\<close> and \<open>den\<close>.\<close>

definition floor_log2 :: "int \<Rightarrow> int \<Rightarrow> int" where
  "floor_log2 num den =
     (let e0 = int (nbits num) - int (nbits den)
      in if den * 2 ^ nat e0 \<le> num * 2 ^ nat (- e0) then e0 else e0 - 1)"

text \<open>
  Round the rational \<open>num/den\<close> (\<open>num \<ge> 0\<close>, \<open>den > 0\<close>) to the nearest double, ties to
  even, and return its magnitude bits (biased exponent and fraction). The
  unit in the last place is \<open>2^t\<close>; the quotient by it is rounded to the
  integer \<open>n \<le> 2^53\<close>, and \<open>(t + 1074) * 2^52 + n\<close> is the encoding of
  \<open>n * 2^t\<close> in the subnormal range (\<open>t = -1074\<close>, \<open>n < 2^52\<close>), in the normal
  range, and when the rounding carries into the next binade (\<open>n = 2^53\<close>).
  A result beyond the largest finite double is infinity.
\<close>

definition fp64_round_mag :: "int \<Rightarrow> int \<Rightarrow> int" where
  "fp64_round_mag num den =
     (if num \<le> 0 then 0
      else
        let e = floor_log2 num den;
            t = max e (- 1022) - 52;
            N = num * 2 ^ nat (- t);
            D = den * 2 ^ nat t;
            f = N div D;
            r = N mod D;
            n = (if 2 * r < D \<or> (2 * r = D \<and> even f) then f else f + 1)
        in min ((t + 1074) * 2 ^ 52 + n) 0x7ff0000000000000)"

definition fp64_pack :: "bool \<Rightarrow> int \<Rightarrow> fp64_t" where
  "fp64_pack s mag = (if s then 0x8000000000000000 else 0) + word_of_int mag"

text \<open>Round \<open>\<plusminus> m * 2^e\<close>.\<close>

definition fp64_round :: "bool \<Rightarrow> int \<Rightarrow> int \<Rightarrow> fp64_t" where
  "fp64_round s m e = fp64_pack s (fp64_round_mag (m * 2 ^ nat e) (2 ^ nat (- e)))"

text \<open>
  Which NaN an operation returns is not fixed by IEEE 754 or by C; the
  definitions follow the x86-64 instructions the source is compiled to. An
  invalid operation (\<open>\<infinity> * 0\<close>, \<open>0 / 0\<close>, \<open>\<infinity> / \<infinity>\<close>, \<open>\<infinity> - \<infinity>\<close>) on operands that are
  not NaN returns the default NaN \<^verbatim>\<open>0xfff8000000000000\<close> (sign bit set, quiet bit
  set, empty payload). An operation with a NaN operand returns that operand
  with its sign and payload, the quiet bit set. When several operands are NaN
  the instruction returns one of them, which one depends on the order in which
  the compiler places the operands; the definitions take the first in the
  order of the source. No property below depends on the NaN that an operation
  returns.
\<close>

definition fp64_nan :: fp64_t where
  "fp64_nan = 0xfff8000000000000"

definition fp64_quiet :: "fp64_t \<Rightarrow> fp64_t" where
  "fp64_quiet x = x OR 0x0008000000000000"

definition fp64_sgn :: "fp64_t \<Rightarrow> bool" where
  "fp64_sgn x = (fp64_get_sign x = 1)"

definition fp64_mul :: "fp64_t \<Rightarrow> fp64_t \<Rightarrow> fp64_t" where
  "fp64_mul x y =
     (let s = (fp64_sgn x \<noteq> fp64_sgn y)
      in if fp64_isnan x then fp64_quiet x
         else if fp64_isnan y then fp64_quiet y
         else if fp64_isinf x \<or> fp64_isinf y then
           (if fp64_iszero x \<or> fp64_iszero y then fp64_nan
            else fp64_pack s 0x7ff0000000000000)
         else fp64_round s (fp64_mant x * fp64_mant y) (fp64_expo x + fp64_expo y))"

definition fp64_div :: "fp64_t \<Rightarrow> fp64_t \<Rightarrow> fp64_t" where
  "fp64_div x y =
     (let s = (fp64_sgn x \<noteq> fp64_sgn y);
          e = fp64_expo x - fp64_expo y
      in if fp64_isnan x then fp64_quiet x
         else if fp64_isnan y then fp64_quiet y
         else if fp64_isinf x then
           (if fp64_isinf y then fp64_nan else fp64_pack s 0x7ff0000000000000)
         else if fp64_isinf y then fp64_pack s 0
         else if fp64_iszero y then
           (if fp64_iszero x then fp64_nan else fp64_pack s 0x7ff0000000000000)
         else fp64_pack s
                (fp64_round_mag (fp64_mant x * 2 ^ nat e) (fp64_mant y * 2 ^ nat (- e))))"

text \<open>\<^verbatim>\<open>fma(x, y, z)\<close>: the exact \<open>x * y + z\<close>, rounded once. An exact zero sum is
  negative only when the product and \<open>z\<close> are both negative.\<close>

definition fp64_fma :: "fp64_t \<Rightarrow> fp64_t \<Rightarrow> fp64_t \<Rightarrow> fp64_t" where
  "fp64_fma x y z =
     (let sp = (fp64_sgn x \<noteq> fp64_sgn y);
          sz = fp64_sgn z
      in if fp64_isnan x then fp64_quiet x
         else if fp64_isnan y then fp64_quiet y
         else if fp64_isnan z then fp64_quiet z
         else if fp64_isinf x \<or> fp64_isinf y then
           (if fp64_iszero x \<or> fp64_iszero y then fp64_nan
            else if fp64_isinf z \<and> sz \<noteq> sp then fp64_nan
            else fp64_pack sp 0x7ff0000000000000)
         else if fp64_isinf z then z
         else
           let ep = fp64_expo x + fp64_expo y;
               ez = fp64_expo z;
               em = min ep ez;
               P = fp64_mant x * fp64_mant y * 2 ^ nat (ep - em);
               Z = fp64_mant z * 2 ^ nat (ez - em);
               S = (if sp then - P else P) + (if sz then - Z else Z)
           in if S = 0 then fp64_pack (sp \<and> sz) 0
              else fp64_round (S < 0) \<bar>S\<bar> em)"

text \<open>Conversion of a 64-bit integer to double, \<^verbatim>\<open>(fp64_t) e\<close>.\<close>

definition fp64_from_int64 :: "int64_t \<Rightarrow> fp64_t" where
  "fp64_from_int64 k = fp64_round (sint k < 0) \<bar>sint k\<bar> 0"

definition fp64_from_uint64 :: "uint64_t \<Rightarrow> fp64_t" where
  "fp64_from_uint64 k = fp64_round False (uint k) 0"


definition fp64_add :: "fp64_t \<Rightarrow> fp64_t \<Rightarrow> fp64_t" where
  "fp64_add x y = fp64_fma x 0x3ff0000000000000 y"

text \<open>\<open>x - y\<close> is \<open>x + (-y)\<close>, except that a NaN \<open>y\<close> is returned with its own
  sign.\<close>

definition fp64_sub :: "fp64_t \<Rightarrow> fp64_t \<Rightarrow> fp64_t" where
  "fp64_sub x y =
     (if \<not> fp64_isnan x \<and> fp64_isnan y then fp64_quiet y
      else fp64_add x (fp64_neg y))"

text \<open>Signed 64-bit division of C, truncating towards zero.\<close>

definition int64_div :: "int64_t \<Rightarrow> int64_t \<Rightarrow> int64_t" where
  "int64_div a b = word_of_int (sgn (sint a) * sgn (sint b) * (\<bar>sint a\<bar> div \<bar>sint b\<bar>))"

section \<open>efp64-c.h: the extended value\<close>

record efp64_t =
  fp :: fp64_t
  exp :: int64_t

definition hi_part :: "int64_t \<Rightarrow> nat \<Rightarrow> int64_t" where
  "hi_part x bits = (let mask = push_bit bits (NOT 0) in x AND mask)"

definition lo_part :: "int64_t \<Rightarrow> nat \<Rightarrow> int64_t" where
  "lo_part x bits = (let mask = push_bit bits 1 - 1 in x AND mask)"

definition EXP_BITS :: nat where
  "EXP_BITS = 6"

definition EXP_MODULUS :: int64_t where
  "EXP_MODULUS = push_bit EXP_BITS 1"

definition INT64_MIN :: int64_t where
  "INT64_MIN = - (2 ^ 63)"

definition ZEXP :: int64_t where
  "ZEXP = hi_part (int64_div INT64_MIN 2) EXP_BITS"

definition EFP64_MAX_MUL :: uint64_t where
  "EFP64_MAX_MUL = FP64_MAX_EXPONENT div EXP_MODULUS - 2"

definition efp64_collect :: "fp64_t \<Rightarrow> int64_t \<Rightarrow> efp64_t" where
  "efp64_collect d e = \<lparr>fp = d, exp = e\<rparr>"

definition efp64_is_zero :: "efp64_t \<Rightarrow> bool" where
  "efp64_is_zero a = fp64_eq (fp a) 0"

definition efp64_zero :: efp64_t where
  "efp64_zero = \<lparr>fp = 0, exp = ZEXP\<rparr>"

definition efp64_is_valid :: "efp64_t \<Rightarrow> bool" where
  "efp64_is_valid a = (\<not> fp64_isnan (fp a) \<and> \<not> fp64_isinf (fp a))"

definition efp64_full_exponent :: "efp64_t \<Rightarrow> int64_t" where
  "efp64_full_exponent val = exp val + fp64_get_exponent (fp val)"

definition efp64_zeroed_fraction :: "efp64_t \<Rightarrow> fp64_t" where
  "efp64_zeroed_fraction val = fp64_zero_exponent (fp val)"

definition efp64_canonicalize :: "efp64_t \<Rightarrow> efp64_t" where
  "efp64_canonicalize a =
     (if efp64_is_zero a then efp64_zero
      else
        let nexp = efp64_full_exponent a
        in \<lparr>fp = fp64_replace_exponent (fp a) (lo_part nexp EXP_BITS),
            exp = hi_part nexp EXP_BITS\<rparr>)"

definition efp64_quick_canonicalize :: "efp64_t \<Rightarrow> efp64_t" where
  "efp64_quick_canonicalize a =
     (let nval = a;
          low = fp64_power2 (- EXP_MODULUS);
          high = fp64_power2 EXP_MODULUS
      in if fp64_lt (fp64_fabs (fp nval)) 0x3ff0000000000000 then
           \<lparr>fp = fp64_mul (fp nval) high, exp = exp nval - EXP_MODULUS\<rparr>
         else if fp64_ge (fp64_fabs (fp nval)) high then
           \<lparr>fp = fp64_mul (fp nval) low, exp = exp nval + EXP_MODULUS\<rparr>
         else nval)"

definition efp64_quick_down_canonicalize :: "efp64_t \<Rightarrow> efp64_t" where
  "efp64_quick_down_canonicalize a =
     (let nval = a;
          low = fp64_power2 (- EXP_MODULUS);
          high = fp64_power2 EXP_MODULUS
      in if fp64_ge (fp64_fabs (fp nval)) high then
           \<lparr>fp = fp64_mul (fp nval) low, exp = exp nval + EXP_MODULUS\<rparr>
         else nval)"

definition efp64_quick_up_canonicalize :: "efp64_t \<Rightarrow> efp64_t" where
  "efp64_quick_up_canonicalize a =
     (let nval = a;
          high = fp64_power2 EXP_MODULUS
      in if fp64_lt (fp64_fabs (fp nval)) 0x3ff0000000000000 then
           \<lparr>fp = fp64_mul (fp nval) high, exp = exp nval - EXP_MODULUS\<rparr>
         else nval)"

definition efp64_from_fp64 :: "fp64_t \<Rightarrow> efp64_t" where
  "efp64_from_fp64 dval = efp64_canonicalize \<lparr>fp = dval, exp = 0\<rparr>"

definition efp64_to_fp64 :: "efp64_t \<Rightarrow> fp64_t" where
  "efp64_to_fp64 eval =
     (if efp64_is_zero eval then 0
      else
        let full_exp = efp64_full_exponent eval
        in if fp64_exponent_below full_exp then 0
           else if fp64_exponent_above full_exp then
             (let sign = (ucast (fp64_get_sign (fp eval)) :: c_int)
              in fp64_infinity sign)
           else fp64_replace_exponent (fp eval) full_exp)"

definition efp64_is_equal :: "efp64_t \<Rightarrow> efp64_t \<Rightarrow> bool" where
  "efp64_is_equal a b =
     (if efp64_is_zero a then efp64_is_zero b
      else fp64_eq (fp a) (fp b) \<and> exp a = exp b)"

definition efp64_negate :: "efp64_t \<Rightarrow> efp64_t" where
  "efp64_negate a =
     (if efp64_is_zero a then a else \<lparr>fp = fp64_neg (fp a), exp = exp a\<rparr>)"

definition efp64_add :: "efp64_t \<Rightarrow> efp64_t \<Rightarrow> efp64_t" where
  "efp64_add a b =
     (let nval =
        (if exp b <s exp a then
           \<lparr>fp = fp64_fma (fp b) (fp64_power2 (exp b - exp a)) (fp a), exp = exp a\<rparr>
         else
           \<lparr>fp = fp64_fma (fp a) (fp64_power2 (exp a - exp b)) (fp b), exp = exp b\<rparr>)
      in efp64_quick_canonicalize nval)"

definition efp64_quick_mul :: "efp64_t \<Rightarrow> efp64_t \<Rightarrow> efp64_t" where
  "efp64_quick_mul a b = \<lparr>fp = fp64_mul (fp a) (fp b), exp = exp a + exp b\<rparr>"

definition efp64_mul :: "efp64_t \<Rightarrow> efp64_t \<Rightarrow> efp64_t" where
  "efp64_mul a b = efp64_quick_down_canonicalize (efp64_quick_mul a b)"

definition efp64_fma :: "efp64_t \<Rightarrow> efp64_t \<Rightarrow> efp64_t \<Rightarrow> efp64_t" where
  "efp64_fma a b c = efp64_add (efp64_mul a b) c"

definition efp64_div :: "efp64_t \<Rightarrow> efp64_t \<Rightarrow> efp64_t" where
  "efp64_div a b =
     efp64_quick_up_canonicalize \<lparr>fp = fp64_div (fp a) (fp b), exp = exp a - exp b\<rparr>"

definition efp64_cmp :: "efp64_t \<Rightarrow> efp64_t \<Rightarrow> int" where
  "efp64_cmp a b =
     (let sa = fp64_lt (fp a) 0;
          sb = fp64_lt (fp b) 0
      in if sa \<and> \<not> sb then - 1
         else if \<not> sa \<and> sb then 1
         else
           let flip = (if sa then - 1 else 1)
           in if exp b <s exp a then flip
              else if exp a <s exp b then - flip
              else if fp64_lt (fp a) (fp b) then - 1
              else if fp64_gt (fp a) (fp b) then 1
              else 0)"

text \<open>The square root of \<^verbatim>\<open>math.h\<close> is a parameter, \<open>c_sqrt\<close>.\<close>

definition efp64_sqrt :: "(fp64_t \<Rightarrow> fp64_t) \<Rightarrow> efp64_t \<Rightarrow> efp64_t" where
  "efp64_sqrt c_sqrt a =
     (if efp64_is_zero a \<or> fp64_lt (fp a) 0 then efp64_zero
      else efp64_canonicalize \<lparr>fp = c_sqrt (fp a), exp = int64_div (exp a) 2\<rparr>)"

definition efp64_scale_power2 :: "efp64_t \<Rightarrow> int64_t \<Rightarrow> efp64_t" where
  "efp64_scale_power2 val pwr = \<lparr>fp = fp val, exp = exp val + pwr\<rparr>"

subsection \<open>Products of sequences\<close>

text \<open>The array \<^verbatim>\<open>val\<close> with its length \<^verbatim>\<open>len\<close> is a list. A loop over
  \<^verbatim>\<open>i\<close> is a recursion over the elements from \<^verbatim>\<open>val[i]\<close> on.\<close>

fun efp64_mul_seq_slow_loop :: "efp64_t \<Rightarrow> efp64_t list \<Rightarrow> efp64_t" where
  "efp64_mul_seq_slow_loop result [] = result"
| "efp64_mul_seq_slow_loop result (v # vs) = efp64_mul_seq_slow_loop (efp64_mul result v) vs"

definition efp64_mul_seq_slow :: "efp64_t list \<Rightarrow> efp64_t" where
  "efp64_mul_seq_slow val = efp64_mul_seq_slow_loop (efp64_from_fp64 0x3ff0000000000000) val"

fun efp64_mul_seq_x1_loop :: "efp64_t \<Rightarrow> nat \<Rightarrow> efp64_t list \<Rightarrow> efp64_t" where
  "efp64_mul_seq_x1_loop result count [] = result"
| "efp64_mul_seq_x1_loop result count (arg # vs) =
     (let result = efp64_quick_mul result arg;
          count = count + 1
      in if unat EFP64_MAX_MUL < count
         then efp64_mul_seq_x1_loop (efp64_canonicalize result) 0 vs
         else efp64_mul_seq_x1_loop result count vs)"

definition efp64_mul_seq_x1 :: "efp64_t list \<Rightarrow> efp64_t" where
  "efp64_mul_seq_x1 val =
     (case val of
        [] \<Rightarrow> efp64_from_fp64 0x3ff0000000000000
      | v0 # vs \<Rightarrow> efp64_canonicalize (efp64_mul_seq_x1_loop v0 1 vs))"

text \<open>The main loop of the 4-way product: \<open>prd\<close> holds the four accumulators (\<^verbatim>\<open>prod\<close>),
  \<open>vs\<close> the elements from \<^verbatim>\<open>val[i]\<close> on, so that \<^verbatim>\<open>i <= len-4\<close> reads
  \<open>4 \<le> length vs\<close>. It returns the accumulators, the counter and the elements
  left over.\<close>

function efp64_mul_seq_x4_loop ::
  "efp64_t list \<Rightarrow> nat \<Rightarrow> efp64_t list \<Rightarrow> efp64_t list \<times> nat \<times> efp64_t list" where
  "efp64_mul_seq_x4_loop prd count vs =
     (if 4 \<le> length vs then
        let prd = map2 efp64_quick_mul prd (take 4 vs);
            count = count + 1
        in if unat EFP64_MAX_MUL < count
           then efp64_mul_seq_x4_loop (map efp64_canonicalize prd) 0 (drop 4 vs)
           else efp64_mul_seq_x4_loop prd count (drop 4 vs)
      else (prd, count, vs))"
  by pat_completeness auto
termination
  by (relation "measure (\<lambda>(prd, count, vs). length vs)") auto

declare efp64_mul_seq_x4_loop.simps [simp del]

text \<open>The accumulator of the 4-way product when the last loop is left, before
  the closing canonicalization. The source assumes \<^verbatim>\<open>len >= 4\<close>; a shorter array
  would be read out of bounds, which is \<open>None\<close> here.\<close>

definition efp64_mul_seq_x4_acc :: "efp64_t list \<Rightarrow> efp64_t option" where
  "efp64_mul_seq_x4_acc val =
     (if length val < 4 then None
      else
        let (prd, count, vs) = efp64_mul_seq_x4_loop (take 4 val) 0 (drop 4 val);
            prd = (if unat EFP64_MAX_MUL < count * 4 then map efp64_canonicalize prd else prd);
            result = foldl efp64_quick_mul (hd prd) (tl prd);
            result = foldl efp64_quick_mul result vs
        in Some result)"

definition efp64_mul_seq_x4 :: "efp64_t list \<Rightarrow> efp64_t option" where
  "efp64_mul_seq_x4 val = map_option efp64_canonicalize (efp64_mul_seq_x4_acc val)"

definition efp64_mul_seq :: "efp64_t list \<Rightarrow> efp64_t option" where
  "efp64_mul_seq val =
     (if length val < 8 then Some (efp64_mul_seq_x1 val) else efp64_mul_seq_x4 val)"

subsection \<open>Logarithm\<close>

text \<open>The normalization loop of \<^verbatim>\<open>efp64_log2d\<close> doubles \<^verbatim>\<open>log_val\<close> until its
  top bit is set; started at 0 with a zero \<^verbatim>\<open>dlog\<close> it never ends, so the
  result is optional.\<close>

partial_function (option) efp64_log2d_loop ::
  "uint64_t \<Rightarrow> fp64_t \<Rightarrow> fp64_t \<Rightarrow> (uint64_t \<times> fp64_t \<times> fp64_t) option" where
  "efp64_log2d_loop log_val dlog log_weight =
     (if drop_bit 63 log_val = 0 then
        efp64_log2d_loop
          (if fp64_ge (fp64_mul dlog 0x4000000000000000) 0x3ff0000000000000
           then log_val * 2 + 1 else log_val * 2)
          (if fp64_ge (fp64_mul dlog 0x4000000000000000) 0x3ff0000000000000
           then fp64_sub (fp64_mul dlog 0x4000000000000000) 0x3ff0000000000000
           else fp64_mul dlog 0x4000000000000000)
          (fp64_mul log_weight 0x3fe0000000000000)
      else Some (log_val, dlog, log_weight))"

declare efp64_log2d_loop.simps [code]

text \<open>The logarithm of \<^verbatim>\<open>math.h\<close> is a parameter, \<open>c_log2\<close>.\<close>

definition efp64_log2d :: "(fp64_t \<Rightarrow> fp64_t) \<Rightarrow> efp64_t \<Rightarrow> fp64_t option" where
  "efp64_log2d c_log2 a =
     (let d = efp64_zeroed_fraction a
      in if fp64_le d 0 then Some 0
         else
           let e = efp64_full_exponent a
           in if fp64_eq d 0x3ff0000000000000 then Some (fp64_from_int64 e)
              else if \<not> fp64_exponent_below e \<and> \<not> fp64_exponent_above e
                then Some (c_log2 (efp64_to_fp64 a))
              else
                let log_weight = (if e <s 0 then 0xbff0000000000000 else 0x3ff0000000000000);
                    dlog = (if e <s 0 then fp64_neg (c_log2 (fp64_div d 0x4000000000000000))
                            else c_log2 d);
                    e = (if e <s 0 then - (e + 1) else e);
                    uflow = fp64_eq dlog 0
                in case efp64_log2d_loop e dlog log_weight of
                     None \<Rightarrow> None
                   | Some (log_val, dlog, log_weight) \<Rightarrow>
                       let log_val = (if uflow \<or> \<not> fp64_eq dlog 0 then log_val OR 0x1 else log_val)
                       in Some (fp64_mul (fp64_from_uint64 log_val) log_weight))"

definition efp64_log2 :: "(fp64_t \<Rightarrow> fp64_t) \<Rightarrow> efp64_t \<Rightarrow> efp64_t option" where
  "efp64_log2 c_log2 a = map_option efp64_from_fp64 (efp64_log2d c_log2 a)"


section \<open>The canonical form\<close>

text \<open>The invariant of the representation, for a non-zero value: the
  exponent embedded in \<open>fp\<close> lies in the window \<open>[0, 64)\<close> and \<open>exp\<close> is a
  multiple of 64. A canonical value is the canonical zero or satisfies the
  invariant.\<close>

definition efp64_in_window :: "efp64_t \<Rightarrow> bool" where
  "efp64_in_window a =
     (0 \<le>s fp64_get_exponent (fp a) \<and> fp64_get_exponent (fp a) <s EXP_MODULUS
      \<and> lo_part (exp a) EXP_BITS = 0)"

definition efp64_canonical :: "efp64_t \<Rightarrow> bool" where
  "efp64_canonical a = (a = efp64_zero \<or> efp64_in_window a)"

text \<open>A double put together from a sign bit, an 11-bit exponent field and a
  52-bit fraction field.\<close>

definition fp64_join :: "64 word \<Rightarrow> 64 word \<Rightarrow> 64 word \<Rightarrow> 64 word" where
  "fp64_join s b f = push_bit 63 s OR push_bit 52 (take_bit 11 b) OR take_bit 52 f"

definition rne :: "real \<Rightarrow> int" where
  "rne y = (let f = \<lfloor>y\<rfloor>
            in if y - of_int f < 1/2 \<or> (y - of_int f = 1/2 \<and> even f) then f else f + 1)"

definition fp64_finite :: "fp64_t \<Rightarrow> bool" where
  "fp64_finite x = (fp64_get_biased_exponent x \<noteq> 0x7ff)"

definition fp64_absval :: "fp64_t \<Rightarrow> real" where
  "fp64_absval x = real_of_int (fp64_mant x) * 2 powi (fp64_expo x)"

definition fp64_value :: "fp64_t \<Rightarrow> real" where
  "fp64_value x = (if fp64_sgn x then - fp64_absval x else fp64_absval x)"

section \<open>Bit fields\<close>

lemmas fp_defs = FP64_EXP_OFFSET_def FP64_SIGN_OFFSET_def FP64_EXP_MASK_def FP64_BIAS_def
  fp64_get_bits_def fp64_from_bits_def

lemma ZEXP_val: "ZEXP = 0xC000000000000000" by code_simp
lemma EFP64_MAX_MUL_val: "EFP64_MAX_MUL = 13" by code_simp
lemma EXP_MODULUS_val: "EXP_MODULUS = 64" by code_simp

lemma m11: "(0x7ff :: 64 word) = mask 11" by (simp add: mask_eq_exp_minus_1)
lemma m63: "(0x7FFFFFFFFFFFFFFF :: 64 word) = mask 63" by (simp add: mask_eq_exp_minus_1)
lemma m6: "(63 :: 64 word) = mask 6" by (simp add: mask_eq_exp_minus_1)

lemma bexp_alt: "fp64_get_biased_exponent x = take_bit 11 (drop_bit 52 x)"
  by (simp add: fp64_get_biased_exponent_def fp_defs m11 take_bit_eq_mask)

lemma frac_alt: "fp64_get_fraction x = take_bit 52 x"
  by (simp add: fp64_get_fraction_def fp_defs take_bit_eq_mask mask_eq_exp_minus_1)

lemma sign_alt: "fp64_get_sign x = drop_bit 63 x"
  apply (simp add: fp64_get_sign_def fp_defs)
  apply (rule bit_word_eqI)
  subgoal for n by (cases "n = 63") (auto simp add: bit_simps bit_0 dest: bit_imp_le_length)
  done

lemma fabs_alt: "fp64_fabs x = take_bit 63 x"
  by (simp add: fp64_fabs_def m63 take_bit_eq_mask)

lemma join_self: "fp64_join (drop_bit 63 x) (drop_bit 52 x) x = x"
  unfolding fp64_join_def
  apply (rule bit_word_eqI)
  subgoal for n by (cases "n = 63") (auto simp add: bit_simps bit_0 dest: bit_imp_le_length)
  done

lemma bexp_join: "fp64_get_biased_exponent (fp64_join s b f) = take_bit 11 b"
  unfolding fp64_join_def bexp_alt
  apply (rule bit_word_eqI)
  subgoal for n by (cases "n = 63") (auto simp add: bit_simps bit_0 dest: bit_imp_le_length)
  done

lemma frac_join: "fp64_get_fraction (fp64_join s b f) = take_bit 52 f"
  unfolding fp64_join_def frac_alt
  apply (rule bit_word_eqI)
  subgoal for n by (cases "n = 63") (auto simp add: bit_simps bit_0 dest: bit_imp_le_length)
  done

lemma sign_join: "fp64_get_sign (fp64_join s b f) = take_bit 1 s"
  unfolding fp64_join_def sign_alt
  apply (rule bit_word_eqI)
  subgoal for n by (cases "n = 63") (auto simp add: bit_simps bit_0 dest: bit_imp_le_length)
  done

lemma fabs_join: "fp64_fabs (fp64_join s b f) = fp64_join 0 b f"
  unfolding fp64_join_def fabs_alt
  apply (rule bit_word_eqI)
  subgoal for n by (cases "n = 63") (auto simp add: bit_simps bit_0 dest: bit_imp_le_length)
  done

lemma clear_exp: "(x AND NOT (push_bit 52 (mask 11))) + push_bit 52 (take_bit 11 b) = fp64_join (drop_bit 63 x) b x"
  unfolding fp64_join_def
  apply (subst disjunctive_add_eq_or)
   apply (rule bit_word_eqI)
   subgoal for n by (cases "n = 63") (auto simp add: bit_simps bit_0 dest: bit_imp_le_length)
  apply (rule bit_word_eqI)
  subgoal for n by (cases "n = 63") (auto simp add: bit_simps bit_0 dest: bit_imp_le_length)
  done

lemma le_mask11: "(b::64 word) \<le> 0x7ff \<Longrightarrow> take_bit 11 b = b"
  apply (simp add: take_bit_eq_mask)
  apply (rule less_mask_eq)
  apply unat_arith
  done

lemma repl_join:
  assumes "e + 0x3ff \<le> (0x7ff::64 word)"
  shows "fp64_replace_exponent x e = fp64_join (fp64_get_sign x) (e + 0x3ff) x"
proof -
  have t: "take_bit 11 (e + 0x3ff) = e + 0x3ff" using assms by (rule le_mask11)
  have "fp64_replace_exponent x e = (x AND NOT (push_bit 52 (mask 11))) + push_bit 52 (take_bit 11 (e + 0x3ff))"
    by (simp add: fp64_replace_exponent_def fp_defs Let_def m11 t)
  then show ?thesis by (simp only: clear_exp sign_alt)
qed

lemma join_join: "fp64_join s b (fp64_join s' b' f) = fp64_join s b f"
  unfolding fp64_join_def
  apply (rule bit_word_eqI)
  subgoal for n by (cases "n = 63") (auto simp add: bit_simps bit_0 dest: bit_imp_le_length)
  done

lemma join_take1: "fp64_join (take_bit 1 s) b f = fp64_join s b f"
  unfolding fp64_join_def
  apply (rule bit_word_eqI)
  subgoal for n by (cases "n = 63") (auto simp add: bit_simps bit_0 dest: bit_imp_le_length)
  done

lemma hi_lo: "hi_part n 6 + lo_part n 6 = n"
  apply (simp add: hi_part_def lo_part_def)
  apply (subst disjunctive_add_eq_or)
   apply (rule bit_word_eqI)
   subgoal for n by (cases "n = 63") (auto simp add: bit_simps bit_0 m6 dest: bit_imp_le_length)
   apply (rule bit_word_eqI)
   subgoal for n by (cases "n = 63") (auto simp add: bit_simps bit_0 m6 dest: bit_imp_le_length)
  done

lemma lo_le: "lo_part n 6 \<le> 63"
  apply (simp add: lo_part_def)
  by (rule word_and_le1)

lemma lo_ok: "lo_part n 6 + 0x3ff \<le> 0x7ff"
  using lo_le[of n] by unat_arith

lemma bexp_le: "fp64_get_biased_exponent x \<le> 0x7ff"
  unfolding fp64_get_biased_exponent_def fp_defs Let_def
  by (rule word_and_le1)

lemma sint_bexp: "sint (fp64_get_biased_exponent x - 0x3ff) = uint (fp64_get_biased_exponent x) - 1023"
proof -
  have "uint (fp64_get_biased_exponent x) \<le> 2047" using bexp_le[of x] by (simp add: word_le_def)
  moreover have "0 \<le> uint (fp64_get_biased_exponent x)" by simp
  moreover have "fp64_get_biased_exponent x - 0x3ff = word_of_int (uint (fp64_get_biased_exponent x) - 1023)"
    by simp
  ultimately show ?thesis
    by (simp only: sint_sbintrunc') (simp add: signed_take_bit_int_eq_self)
qed


lemma join_take11: "fp64_join s (take_bit 11 b) f = fp64_join s b f"
  unfolding fp64_join_def by simp

lemma bexp_fabs: "fp64_get_biased_exponent (fp64_fabs x) = fp64_get_biased_exponent x"
  unfolding bexp_alt fabs_alt
  apply (rule bit_word_eqI)
  subgoal for n by (cases "n = 63") (auto simp add: bit_simps bit_0 dest: bit_imp_le_length)
  done

lemma frac_fabs: "fp64_get_fraction (fp64_fabs x) = fp64_get_fraction x"
  unfolding frac_alt fabs_alt
  apply (rule bit_word_eqI)
  subgoal for n by (cases "n = 63") (auto simp add: bit_simps bit_0 dest: bit_imp_le_length)
  done

lemma bexp_0: "fp64_get_biased_exponent 0 = 0" by (simp add: bexp_alt)
lemma frac_0: "fp64_get_fraction 0 = 0" by (simp add: frac_alt)
lemma sign_0: "fp64_get_sign 0 = 0" by (simp add: sign_alt)
lemma fabs_0: "fp64_fabs 0 = 0" by (simp add: fabs_alt)
lemma isnan_0: "\<not> fp64_isnan 0" by (simp add: fp64_isnan_def bexp_0)
lemma key_0: "fp64_key 0 = 0" by (simp add: fp64_key_def fabs_0)

lemma fabs0_bexp: "fp64_fabs x = 0 \<Longrightarrow> fp64_get_biased_exponent x = 0"
  using bexp_fabs[of x] by (simp add: bexp_0)

lemma fabs0_frac: "fp64_fabs x = 0 \<Longrightarrow> fp64_get_fraction x = 0"
  using frac_fabs[of x] by (simp add: frac_0)

lemma key_eq_0: "fp64_key x = 0 \<longleftrightarrow> fp64_fabs x = 0"
  by (auto simp add: fp64_key_def uint_0_iff)

lemma eq_zero_iff: "fp64_eq x 0 \<longleftrightarrow> fp64_fabs x = 0"
proof
  assume "fp64_eq x 0"
  then show "fp64_fabs x = 0" by (simp add: fp64_eq_def key_0 key_eq_0)
next
  assume z: "fp64_fabs x = 0"
  then have "fp64_get_biased_exponent x = 0" by (rule fabs0_bexp)
  then have "\<not> fp64_isnan x" by (simp add: fp64_isnan_def)
  with z show "fp64_eq x 0" by (simp add: fp64_eq_def key_0 key_eq_0 isnan_0)
qed

lemma is_zero_iff: "efp64_is_zero a \<longleftrightarrow> fp64_fabs (fp a) = 0"
  by (simp add: efp64_is_zero_def eq_zero_iff)

lemma bexp_repl:
  "e + 0x3ff \<le> (0x7ff::64 word) \<Longrightarrow> fp64_get_biased_exponent (fp64_replace_exponent x e) = e + 0x3ff"
  by (simp add: repl_join bexp_join le_mask11)

lemma sign_join_sign: "fp64_get_sign (fp64_join (fp64_get_sign x) b f) = fp64_get_sign x"
  unfolding fp64_join_def sign_alt
  apply (rule bit_word_eqI)
  subgoal for n by (cases "n = 63") (auto simp add: bit_simps bit_0 dest: bit_imp_le_length)
  done

lemma sign_repl:
  "e + 0x3ff \<le> (0x7ff::64 word) \<Longrightarrow> fp64_get_sign (fp64_replace_exponent x e) = fp64_get_sign x"
  by (simp only: repl_join sign_join_sign)

lemma frac_repl:
  "e + 0x3ff \<le> (0x7ff::64 word) \<Longrightarrow> fp64_get_fraction (fp64_replace_exponent x e) = fp64_get_fraction x"
  by (simp add: repl_join frac_join) (simp add: frac_alt)

lemma repl_repl:
  "e + 0x3ff \<le> (0x7ff::64 word) \<Longrightarrow> e' + 0x3ff \<le> (0x7ff::64 word) \<Longrightarrow>
   fp64_replace_exponent (fp64_replace_exponent x e) e' = fp64_replace_exponent x e'"
  by (simp only: repl_join sign_join_sign join_join)

lemma repl_self: "fp64_replace_exponent x (fp64_get_biased_exponent x - 0x3ff) = x"
proof -
  have "fp64_get_biased_exponent x - 0x3ff + 0x3ff \<le> 0x7ff" using bexp_le[of x] by simp
  then have "fp64_replace_exponent x (fp64_get_biased_exponent x - 0x3ff)
     = fp64_join (fp64_get_sign x) (fp64_get_biased_exponent x) x"
    by (simp add: repl_join)
  also have "\<dots> = x" by (simp add: sign_alt bexp_alt join_take11 join_self)
  finally show ?thesis .
qed

lemma below_bexp: "fp64_exponent_below (fp64_get_biased_exponent x - 0x3ff) \<longleftrightarrow> fp64_get_biased_exponent x = 0"
  by (simp add: fp64_exponent_below_def word_sle_eq sint_bexp FP64_BIAS_def uint_0_iff)

lemma above_bexp: "fp64_exponent_above (fp64_get_biased_exponent x - 0x3ff) \<longleftrightarrow> fp64_get_biased_exponent x = 0x7ff"
proof -
  have "uint (fp64_get_biased_exponent x) \<le> 2047" using bexp_le[of x] by (simp add: word_le_def)
  moreover have "fp64_get_biased_exponent x = 0x7ff \<longleftrightarrow> uint (fp64_get_biased_exponent x) = 2047"
    by (simp add: word_uint_eq_iff)
  ultimately show ?thesis
    by (auto simp add: fp64_exponent_above_def word_sle_eq sint_bexp FP64_BIAS_def FP64_EXP_MASK_def)
qed

lemma lo_bexp_ne0: "lo_part n 6 + 0x3ff \<noteq> 0"
proof -
  have "uint (lo_part n 6) \<le> 63" using lo_le[of n] by (simp add: word_le_def)
  then have "uint (lo_part n 6 + 0x3ff) = uint (lo_part n 6) + 1023"
    by (simp add: uint_word_ariths)
  then have "uint (lo_part n 6 + 0x3ff) \<noteq> 0"
    using uint_ge_0[of "lo_part n 6"] by linarith
  then show ?thesis by (simp add: uint_0_iff)
qed

lemma canon_fields:
  assumes nz: "\<not> efp64_is_zero a"
  shows "efp64_canonicalize a =
     \<lparr>fp = fp64_replace_exponent (fp a) (lo_part (efp64_full_exponent a) 6),
       exp = hi_part (efp64_full_exponent a) 6\<rparr>"
  using nz by (simp add: efp64_canonicalize_def EXP_BITS_def Let_def)

lemma repl_not_zero:
  assumes "e + 0x3ff \<le> (0x7ff::64 word)" "e + 0x3ff \<noteq> 0"
  shows "fp64_fabs (fp64_replace_exponent x e) \<noteq> 0"
proof
  assume "fp64_fabs (fp64_replace_exponent x e) = 0"
  then have "fp64_get_biased_exponent (fp64_replace_exponent x e) = 0" by (rule fabs0_bexp)
  with assms show False by (simp add: bexp_repl)
qed

lemma canon_not_zero: "\<not> efp64_is_zero a \<Longrightarrow> \<not> efp64_is_zero (efp64_canonicalize a)"
  by (simp add: canon_fields is_zero_iff repl_not_zero lo_ok lo_bexp_ne0)

lemma canon_full_exponent:
  "\<not> efp64_is_zero a \<Longrightarrow> efp64_full_exponent (efp64_canonicalize a) = efp64_full_exponent a"
  by (simp add: canon_fields) (simp add: efp64_full_exponent_def fp64_get_exponent_def Let_def
      bexp_repl lo_ok FP64_BIAS_def hi_lo)

lemma to_fp64_zero: "efp64_to_fp64 efp64_zero = 0"
  by (simp add: efp64_to_fp64_def is_zero_iff efp64_zero_def fabs_0)

lemma sign_casts: "(scast (ucast (drop_bit 63 (x::64 word)) :: 32 word) :: 64 word) = drop_bit 63 x"
  apply (rule bit_word_eqI)
  subgoal for n by (cases "n = 0") (auto simp add: bit_simps min_def simp flip: bit_0 dest: bit_imp_le_length)
  done

lemma infinity_sign: "fp64_infinity (ucast (fp64_get_sign x)) = fp64_join (fp64_get_sign x) 0x7ff 0"
  unfolding fp64_infinity_def fp64_assemble_def fp_defs Let_def fp64_join_def sign_alt sign_casts
  apply simp
  apply (subst disjunctive_add_eq_or)
  subgoal
    apply (rule bit_word_eqI)
    subgoal for n by (cases "n = 63") (auto simp add: bit_simps bit_0 dest: bit_imp_le_length)
    done
  apply (rule bit_word_eqI)
  subgoal for n by (cases "n = 63") (auto simp add: bit_simps bit_0 dest: bit_imp_le_length)
  done

section \<open>Conversion from and to the native double\<close>

text \<open>
  Claim C2, as amended. Converting a double into the extended representation
  and back returns it bit for bit when it is normal (biased exponent between 1
  and 2046) or an infinity. A double with biased exponent 0, that is a zero of
  either sign or a subnormal number, comes back as \<open>+0.0\<close>: subnormal numbers are
  flushed to zero. A NaN comes back as the infinity of its sign.
\<close>

theorem efp64_roundtrip:
  "efp64_to_fp64 (efp64_from_fp64 d) =
     (if fp64_get_biased_exponent d = 0 then 0
      else if fp64_get_biased_exponent d = 0x7ff then fp64_infinity (ucast (fp64_get_sign d))
      else d)"
proof (cases "fp64_fabs d = 0")
  case True
  then have "fp64_get_biased_exponent d = 0" by (rule fabs0_bexp)
  moreover from True have "efp64_from_fp64 d = efp64_zero"
    by (simp add: efp64_from_fp64_def efp64_canonicalize_def is_zero_iff)
  ultimately show ?thesis by (simp add: to_fp64_zero)
next
  case False
  let ?a = "\<lparr>fp = d, exp = 0\<rparr>"
  let ?c = "efp64_canonicalize ?a"
  have nz: "\<not> efp64_is_zero ?a" using False by (simp add: is_zero_iff)
  have fe: "efp64_full_exponent ?a = fp64_get_biased_exponent d - 0x3ff"
    by (simp add: efp64_full_exponent_def fp64_get_exponent_def FP64_BIAS_def)
  have cz: "\<not> efp64_is_zero ?c" using nz by (rule canon_not_zero)
  have cf: "efp64_full_exponent ?c = fp64_get_biased_exponent d - 0x3ff"
    using canon_full_exponent[OF nz] fe by simp
  have fpc: "fp ?c = fp64_replace_exponent d (lo_part (efp64_full_exponent ?a) 6)"
    using canon_fields[OF nz] by simp
  have sg: "fp64_get_sign (fp ?c) = fp64_get_sign d"
    by (simp only: fpc sign_repl[OF lo_ok])
  have bk: "fp64_replace_exponent (fp ?c) (fp64_get_biased_exponent d - 0x3ff) = d"
  proof -
    have "fp64_get_biased_exponent d - 0x3ff + 0x3ff \<le> 0x7ff" using bexp_le[of d] by simp
    then have "fp64_replace_exponent (fp ?c) (fp64_get_biased_exponent d - 0x3ff)
        = fp64_replace_exponent d (fp64_get_biased_exponent d - 0x3ff)"
      by (simp only: fpc repl_repl[OF lo_ok])
    then show ?thesis by (simp only: repl_self)
  qed
  show ?thesis
    using cz cf sg bk
    by (simp add: efp64_to_fp64_def efp64_from_fp64_def Let_def below_bexp above_bexp)
qed


text \<open>The round trip loses the smallest subnormal double, \<open>2^-1074\<close> (bit
  pattern 1): the result does not compare equal to it.\<close>

theorem efp64_roundtrip_subnormal_counterexample:
  "\<not> fp64_eq (efp64_to_fp64 (efp64_from_fp64 0x0000000000000001)) 0x0000000000000001"
  by code_simp

lemma infinity_isinf: "fp64_isinf (fp64_join s 0x7ff 0)"
  by (simp add: fp64_isinf_def bexp_join frac_join)

text \<open>
  Claim C4, as amended. For a non-zero value whose full exponent is below the
  range of the double (at most \<open>-1023\<close>), \<^verbatim>\<open>efp64_to_fp64\<close> returns \<open>+0.0\<close>, the
  all-zero bit pattern, whatever the sign of the value; for a full exponent
  above the range (at least 1024) it returns the infinity with the sign of
  the value.
\<close>

theorem efp64_to_fp64_out_of_range:
  assumes "\<not> efp64_is_zero v"
  shows "(fp64_exponent_below (efp64_full_exponent v) \<longrightarrow> efp64_to_fp64 v = 0) \<and>
         (\<not> fp64_exponent_below (efp64_full_exponent v) \<and>
          fp64_exponent_above (efp64_full_exponent v) \<longrightarrow>
            fp64_isinf (efp64_to_fp64 v) \<and>
            fp64_get_sign (efp64_to_fp64 v) = fp64_get_sign (fp v))"
  using assms
  by (simp add: efp64_to_fp64_def Let_def infinity_sign infinity_isinf sign_join_sign)

theorem efp64_to_fp64_out_of_range_witness:
  "\<not> efp64_is_zero \<lparr>fp = 0xbff0000000000000, exp = 2048\<rparr> \<and>
   fp64_exponent_above (efp64_full_exponent \<lparr>fp = 0xbff0000000000000, exp = 2048\<rparr>) \<and>
   \<not> fp64_exponent_below (efp64_full_exponent \<lparr>fp = 0xbff0000000000000, exp = 2048\<rparr>) \<and>
   fp64_isinf (efp64_to_fp64 \<lparr>fp = 0xbff0000000000000, exp = 2048\<rparr>) \<and>
   fp64_get_sign (efp64_to_fp64 \<lparr>fp = 0xbff0000000000000, exp = 2048\<rparr>) = 1"
proof -
  have a: "\<not> efp64_is_zero \<lparr>fp = 0xbff0000000000000, exp = 2048\<rparr>"
    by code_simp
  have b: "fp64_exponent_above (efp64_full_exponent \<lparr>fp = 0xbff0000000000000, exp = 2048\<rparr>)"
    by code_simp
  have c: "\<not> fp64_exponent_below (efp64_full_exponent \<lparr>fp = 0xbff0000000000000, exp = 2048\<rparr>)"
    by code_simp
  have d: "fp64_get_sign (fp \<lparr>fp = 0xbff0000000000000, exp = 2048\<rparr>) = 1"
    by code_simp
  show ?thesis using efp64_to_fp64_out_of_range[OF a] a b c d by simp
qed

text \<open>The value \<open>-1.0 * 2^-2048\<close> is negative and below the range; the zero
  returned for it has a clear sign bit.\<close>

theorem efp64_to_fp64_underflow_sign_counterexample:
  "fp64_exponent_below (efp64_full_exponent \<lparr>fp = 0xbff0000000000000, exp = - 2048\<rparr>) \<and>
   fp64_get_sign (fp \<lparr>fp = 0xbff0000000000000, exp = - 2048\<rparr>) = 1 \<and>
   fp64_get_sign (efp64_to_fp64 \<lparr>fp = 0xbff0000000000000, exp = - 2048\<rparr>) = 0"
  by code_simp

section \<open>Comparison\<close>

text \<open>
  Claim C5. Two values that both satisfy \<^verbatim>\<open>efp64_is_zero\<close> should compare as
  equal. The sum of \<open>1.0\<close> and \<open>-1.0\<close> is a zero with \<open>exp = -64\<close>;
  \<^verbatim>\<open>efp64_is_equal\<close> finds it equal to the canonical zero, but \<^verbatim>\<open>efp64_cmp\<close>,
  which has no test for zero, orders the two by their \<open>exp\<close> fields.
\<close>

theorem efp64_cmp_zero_classes:
  "efp64_add \<lparr>fp = 0x3ff0000000000000, exp = 0\<rparr>
             (efp64_negate \<lparr>fp = 0x3ff0000000000000, exp = 0\<rparr>)
     = \<lparr>fp = 0, exp = - 64\<rparr> \<and>
   efp64_is_zero \<lparr>fp = 0, exp = - 64\<rparr> \<and> efp64_is_zero efp64_zero \<and>
   efp64_is_equal \<lparr>fp = 0, exp = - 64\<rparr> efp64_zero \<and>
   efp64_cmp \<lparr>fp = 0, exp = - 64\<rparr> efp64_zero = 1 \<and>
   efp64_cmp efp64_zero \<lparr>fp = 0, exp = - 64\<rparr> = - 1"
  by code_simp


lemma ZEXP_sint: "sint ZEXP = - (2 ^ 62)"
  by code_simp




section \<open>Square root\<close>

text \<open>
  Claim C9. For every input that is zero or has a negative significand,
  \<^verbatim>\<open>efp64_sqrt\<close> returns the canonical zero, with significand \<open>0.0\<close> and exponent
  \<open>ZEXP\<close>, whatever the square root of the library does.
\<close>

theorem efp64_sqrt_nonpositive:
  assumes "efp64_is_zero a \<or> fp64_lt (fp a) 0"
  shows "efp64_sqrt c_sqrt a = efp64_zero \<and> fp efp64_zero = 0 \<and> exp efp64_zero = ZEXP"
  using assms by (auto simp add: efp64_sqrt_def efp64_zero_def)

theorem efp64_sqrt_nonpositive_witness:
  "fp64_lt (fp \<lparr>fp = 0xc010000000000000, exp = 0\<rparr>) 0 \<and>
   efp64_sqrt (\<lambda>x. x) \<lparr>fp = 0xc010000000000000, exp = 0\<rparr> = efp64_zero"
proof -
  have a: "fp64_lt (fp \<lparr>fp = 0xc010000000000000, exp = 0\<rparr>) 0"
    by code_simp
  show ?thesis
    using efp64_sqrt_nonpositive[of "\<lparr>fp = 0xc010000000000000, exp = 0\<rparr>" "\<lambda>x. x"] a by simp
qed

lemma nbits_bounds: "0 < n \<Longrightarrow> 2 ^ (nbits n - 1) \<le> n \<and> n < 2 ^ nbits n"
proof (induction n rule: nbits.induct)
  case (1 n)
  show ?case
  proof (cases "n div 2 \<le> 0")
    case True
    with 1(2) have n1: "n = 1" by linarith
    have "nbits 1 = Suc (nbits 0)" by (subst nbits.simps) simp
    also have "nbits 0 = 0" by (subst nbits.simps) simp
    finally show ?thesis using n1 by simp
  next
    case False
    then have pos: "0 < n div 2" by simp
    have ih: "2 ^ (nbits (n div 2) - 1) \<le> n div 2 \<and> n div 2 < 2 ^ nbits (n div 2)"
      using 1(1) 1(2) pos by simp
    have nb: "nbits n = Suc (nbits (n div 2))" using 1(2) by (subst nbits.simps) simp
    have k1: "1 \<le> nbits (n div 2)" using pos by (subst nbits.simps) simp
    then obtain k where k: "nbits (n div 2) = Suc k" by (cases "nbits (n div 2)") auto
    from ih k have a: "2 ^ k \<le> n div 2" and b: "n div 2 < 2 * 2 ^ k" by simp_all
    have "2 * 2 ^ k \<le> n" using a by linarith
    moreover have "n < 2 * (2 * 2 ^ k)" using b by linarith
    ultimately show ?thesis by (simp add: nb k)
  qed
qed

lemma nbits_pos: "0 < n \<Longrightarrow> 0 < nbits n"
  by (subst nbits.simps) simp

lemma pow_test:
  assumes "0 < den"
  shows "(den * 2 ^ nat e \<le> num * 2 ^ nat (- e)) \<longleftrightarrow> (2 powi e \<le> real_of_int num / real_of_int den)"
proof (cases "0 \<le> e")
  case True
  then have p: "(2::real) powi e = 2 ^ nat e" by (simp add: power_int_def)
  have "(den * 2 ^ nat e \<le> num) \<longleftrightarrow> (real_of_int (den * 2 ^ nat e) \<le> real_of_int num)"
    by (simp only: of_int_le_iff)
  also have "\<dots> \<longleftrightarrow> (2 ^ nat e \<le> real_of_int num / real_of_int den)"
    using assms by (simp add: field_simps)
  finally show ?thesis using True p by simp
next
  case False
  then have p: "(2::real) powi e = inverse (2 ^ nat (- e))"
    by (simp add: power_int_def power_one_over inverse_eq_divide)
  have "(den \<le> num * 2 ^ nat (- e)) \<longleftrightarrow> (real_of_int den \<le> real_of_int (num * 2 ^ nat (- e)))"
    by (simp only: of_int_le_iff)
  also have "\<dots> \<longleftrightarrow> (inverse (2 ^ nat (- e)) \<le> real_of_int num / real_of_int den)"
    using assms by (simp add: field_simps)
  finally show ?thesis using False p by simp
qed

lemma floor_log2_bounds:
  assumes "0 < num" "0 < den"
  shows "2 powi (floor_log2 num den) \<le> real_of_int num / real_of_int den
       \<and> real_of_int num / real_of_int den < 2 powi (floor_log2 num den + 1)"
proof -
  define a where "a = nbits num"
  define b where "b = nbits den"
  obtain a' where a': "a = Suc a'" using nbits_pos[OF assms(1)] by (cases a) (auto simp: a_def)
  obtain b' where b': "b = Suc b'" using nbits_pos[OF assms(2)] by (cases b) (auto simp: b_def)
  have na: "2 ^ a' \<le> num" "num < 2 ^ a" using nbits_bounds[OF assms(1)] by (simp_all add: a_def[symmetric] a')
  have nb: "2 ^ b' \<le> den" "den < 2 ^ b" using nbits_bounds[OF assms(2)] by (simp_all add: b_def[symmetric] b')
  have "real_of_int (2 ^ a') \<le> real_of_int num" "real_of_int num < real_of_int (2 ^ a)"
    using na by (simp_all only: of_int_le_iff of_int_less_iff)
  then have rna: "2 ^ a' \<le> real_of_int num" "real_of_int num < 2 ^ a" by simp_all
  have "real_of_int (2 ^ b') \<le> real_of_int den" "real_of_int den < real_of_int (2 ^ b)"
    using nb by (simp_all only: of_int_le_iff of_int_less_iff)
  then have rnb: "2 ^ b' \<le> real_of_int den" "real_of_int den < 2 ^ b" by simp_all
  have dpos: "0 < real_of_int den" using assms by simp
  let ?q = "real_of_int num / real_of_int den"
  let ?e0 = "int a - int b"
  have up: "?q < 2 powi (?e0 + 1)"
  proof -
    have "?q < 2 ^ a / real_of_int den" using rna dpos by (simp add: divide_strict_right_mono)
    also have "\<dots> \<le> 2 ^ a / 2 ^ b'" using rnb by (simp add: frac_le)
    also have "\<dots> = (2::real) powi (int a - int b')" by (simp add: power_int_diff)
    also have "int a - int b' = ?e0 + 1" by (simp add: b')
    finally show ?thesis .
  qed
  have lo: "2 powi (?e0 - 1) \<le> ?q"
  proof -
    have e: "?e0 - 1 = int a' - int b" by (simp add: a')
    have "(2::real) powi (?e0 - 1) = 2 powi (int a' - int b)" by (simp only: e)
    also have "\<dots> = 2 ^ a' / 2 ^ b" by (simp add: power_int_diff)
    also have "\<dots> \<le> 2 ^ a' / real_of_int den" using rnb dpos by (simp add: frac_le)
    also have "\<dots> \<le> ?q" using rna dpos by (simp add: divide_right_mono)
    finally show ?thesis .
  qed
  show ?thesis
  proof (cases "den * 2 ^ nat ?e0 \<le> num * 2 ^ nat (- ?e0)")
    case True
    then have "floor_log2 num den = ?e0" by (simp add: floor_log2_def a_def b_def)
    moreover have "2 powi ?e0 \<le> ?q" using True unfolding pow_test[OF assms(2)] .
    ultimately show ?thesis using up by simp
  next
    case False
    then have "floor_log2 num den = ?e0 - 1" by (simp add: floor_log2_def a_def b_def)
    moreover have "\<not> 2 powi ?e0 \<le> ?q" using False unfolding pow_test[OF assms(2)] .
    then have "?q < 2 powi ?e0" by simp
    ultimately show ?thesis using lo by simp
  qed
qed

lemma binade_unique:
  assumes "2 powi e \<le> (q::real)" "q < 2 powi (e + 1)" "2 powi e' \<le> q" "q < 2 powi (e' + 1)"
  shows "e = e'"
proof -
  have "(2::real) powi e < 2 powi (e' + 1)" using assms by linarith
  then have "e < e' + 1"
    by (metis power_int_increasing not_less one_le_numeral)
  moreover have "(2::real) powi e' < 2 powi (e + 1)" using assms by linarith
  then have "e' < e + 1"
    by (metis power_int_increasing not_less one_le_numeral)
  ultimately show ?thesis by simp
qed

lemma floor_log2_eq:
  assumes "0 < num" "0 < den"
    "2 powi e \<le> real_of_int num / real_of_int den" "real_of_int num / real_of_int den < 2 powi (e + 1)"
  shows "floor_log2 num den = e"
  using floor_log2_bounds[OF assms(1,2)] assms(3,4) binade_unique by blast


lemma scale_ratio:
  assumes "0 < den"
  shows "real_of_int (num * 2 ^ nat (- t)) / real_of_int (den * 2 ^ nat t)
         = (real_of_int num / real_of_int den) / 2 powi t"
proof (cases "0 \<le> t")
  case True
  then have "(2::real) powi t = 2 ^ nat t" by (simp add: power_int_def)
  with True show ?thesis by simp
next
  case False
  then have p: "(2::real) powi t = inverse (2 ^ nat (- t))"
    by (simp add: power_int_def power_one_over inverse_eq_divide)
  have n0: "nat t = 0" using False by simp
  show ?thesis unfolding p n0 by (simp add: field_simps)
qed

lemma rne_divmod:
  assumes "0 < D"
  shows "(if 2 * (N mod D) < D \<or> (2 * (N mod D) = D \<and> even (N div D)) then N div D else N div D + 1)
         = rne (real_of_int N / real_of_int D)"
proof -
  let ?y = "real_of_int N / real_of_int D"
  have f: "\<lfloor>?y\<rfloor> = N div D" by (rule floor_divide_of_int_eq)
  have dpos: "0 < real_of_int D" using assms by simp
  have "real_of_int N = real_of_int (D * (N div D) + N mod D)" by simp
  then have "real_of_int N = real_of_int D * real_of_int (N div D) + real_of_int (N mod D)"
    by (simp only: of_int_add of_int_mult)
  then have r: "?y - real_of_int (N div D) = real_of_int (N mod D) / real_of_int D"
    using dpos by (simp add: field_simps)
  have lt: "(2 * (N mod D) < D) \<longleftrightarrow> (?y - real_of_int (N div D) < 1/2)"
  proof -
    have "(2 * (N mod D) < D) \<longleftrightarrow> (real_of_int (2 * (N mod D)) < real_of_int D)"
      by (simp only: of_int_less_iff)
    also have "\<dots> \<longleftrightarrow> (real_of_int (N mod D) / real_of_int D < 1/2)"
      using dpos by (simp add: field_simps)
    finally show ?thesis by (simp only: r)
  qed
  have eq: "(2 * (N mod D) = D) \<longleftrightarrow> (?y - real_of_int (N div D) = 1/2)"
  proof -
    have "(2 * (N mod D) = D) \<longleftrightarrow> (real_of_int (2 * (N mod D)) = real_of_int D)"
      by (simp only: of_int_eq_iff)
    also have "\<dots> \<longleftrightarrow> (real_of_int (N mod D) / real_of_int D = 1/2)"
      using dpos by (auto simp add: field_simps)
    finally show ?thesis by (simp only: r)
  qed
  show ?thesis unfolding rne_def Let_def f lt eq by simp
qed

lemma round_mag_char:
  assumes "0 < num" "0 < den"
    "2 powi e \<le> real_of_int num / real_of_int den" "real_of_int num / real_of_int den < 2 powi (e + 1)"
  shows "fp64_round_mag num den =
    min ((max e (- 1022) - 52 + 1074) * 2 ^ 52
          + rne ((real_of_int num / real_of_int den) / 2 powi (max e (- 1022) - 52)))
        0x7ff0000000000000"
proof -
  let ?t = "max e (- 1022) - 52"
  have fl: "floor_log2 num den = e" using assms by (rule floor_log2_eq)
  have D: "0 < den * 2 ^ nat ?t" using assms(2) by simp
  show ?thesis
    using assms(1)
    unfolding fp64_round_mag_def fl Let_def rne_divmod[OF D] scale_ratio[OF assms(2)]
    by simp
qed

lemma rne_int: "rne (of_int n) = n"
  by (simp add: rne_def)

lemma rne_ge: "of_int a \<le> y \<Longrightarrow> a \<le> rne y"
proof -
  assume "of_int a \<le> y"
  then have "a \<le> \<lfloor>y\<rfloor>" by (simp add: le_floor_iff)
  then show ?thesis by (simp add: rne_def Let_def)
qed

lemma rne_le: "y \<le> of_int b \<Longrightarrow> rne y \<le> b"
proof (cases "y = of_int b")
  case True
  then show ?thesis by (simp add: rne_int)
next
  case False
  assume "y \<le> of_int b"
  with False have "y < of_int b" by simp
  then have "\<lfloor>y\<rfloor> < b" by (simp add: floor_less_iff)
  then show ?thesis by (simp add: rne_def Let_def)
qed

lemma powi_less_imp: "(2::real) powi a < 2 powi b \<Longrightarrow> a < b"
  by (metis power_int_increasing not_less one_le_numeral)

lemma powi_split: "(2::real) powi (a + b) = 2 powi a * 2 powi b"
  by (simp add: power_int_add)

lemma powi_52: "(2::real) powi (t + 52) = 2 ^ 52 * 2 powi t"
  by (simp add: power_int_add)

lemma powi_53: "(2::real) powi (t + 53) = 2 ^ 53 * 2 powi t"
  by (simp add: power_int_add)

lemma div_powi_le: "q \<le> y * 2 powi t \<longleftrightarrow> q / 2 powi t \<le> (y::real)"
  by (simp add: field_simps)

lemma div_powi_ge: "y * 2 powi t \<le> q \<longleftrightarrow> (y::real) \<le> q / 2 powi t"
  by (simp add: field_simps)

lemma div_powi_less: "q < y * 2 powi t \<longleftrightarrow> q / 2 powi t < (y::real)"
  by (simp add: field_simps)

text \<open>The encoding of \<open>n * 2^t\<close>.\<close>

lemma round_mag_exact:
  assumes "0 < num" "0 < den"
    and q: "real_of_int num / real_of_int den = real_of_int n * 2 powi t"
    and n: "2 ^ 52 \<le> n" "n < 2 ^ 53" and t: "- 1074 \<le> t"
  shows "fp64_round_mag num den = min ((t + 1074) * 2 ^ 52 + n) 0x7ff0000000000000"
proof -
  have rn: "2 ^ 52 \<le> real_of_int n" "real_of_int n < 2 ^ 53"
    using n by (simp_all flip: of_int_le_iff of_int_less_iff)
  have p: "0 < (2::real) powi t" by simp
  have lo: "2 powi (t + 52) \<le> real_of_int num / real_of_int den"
    unfolding q powi_52 using rn p by (simp add: mult_right_mono)
  have hi: "real_of_int num / real_of_int den < 2 powi (t + 52 + 1)"
  proof -
    have "real_of_int n * 2 powi t < 2 ^ 53 * 2 powi t" using rn p by (simp add: mult_strict_right_mono)
    then show ?thesis unfolding q using powi_53[of t] by (simp add: add.commute)
  qed
  have m: "max (t + 52) (- 1022) - 52 = t" using t by simp
  have y: "(real_of_int n * 2 powi t) / 2 powi t = real_of_int n" by simp
  show ?thesis
    using round_mag_char[OF assms(1,2) lo hi]
    unfolding m q y rne_int by simp
qed

lemma round_mag_le:
  assumes "0 < num" "0 < den"
    and q: "real_of_int num / real_of_int den \<le> real_of_int n * 2 powi t"
    and n: "2 ^ 52 \<le> n" "n < 2 ^ 53" and t: "- 1074 \<le> t"
  shows "fp64_round_mag num den \<le> min ((t + 1074) * 2 ^ 52 + n) 0x7ff0000000000000"
proof -
  let ?q = "real_of_int num / real_of_int den"
  define e where "e = floor_log2 num den"
  have b: "2 powi e \<le> ?q" "?q < 2 powi (e + 1)"
    using floor_log2_bounds[OF assms(1,2)] by (simp_all add: e_def)
  define t' where "t' = max e (- 1022) - 52"
  define y where "y = ?q / 2 powi t'"
  have rn: "2 ^ 52 \<le> real_of_int n" "real_of_int n < 2 ^ 53"
    using n by (simp_all flip: of_int_le_iff of_int_less_iff)
  have p: "0 < (2::real) powi t" by simp
  have "real_of_int n * 2 powi t < 2 ^ 53 * 2 powi t" using rn p by (simp add: mult_strict_right_mono)
  then have "2 powi e < (2::real) powi (t + 53)" using b(1) q unfolding powi_53 by linarith
  then have et: "e < t + 53" by (rule powi_less_imp)
  have t't: "t' \<le> t" using et t by (simp add: t'_def)
  have y53: "y \<le> 2 ^ 53"
  proof -
    have "e + 1 \<le> t' + 53" by (simp add: t'_def)
    then have "(2::real) powi (e + 1) \<le> 2 powi (t' + 53)" by (simp add: power_int_increasing)
    then have "?q < 2 ^ 53 * 2 powi t'" using b(2) unfolding powi_53 by linarith
    then have "?q / 2 powi t' < 2 ^ 53" by (simp only: div_powi_less)
    then show ?thesis unfolding y_def by simp
  qed
  have r53: "rne y \<le> 2 ^ 53"
  proof -
    have "y \<le> of_int (2 ^ 53)" using y53 by simp
    then show ?thesis by (rule rne_le)
  qed
  have enc: "(t' + 1074) * 2 ^ 52 + rne y \<le> (t + 1074) * 2 ^ 52 + n"
  proof (cases "t' = t")
    case True
    have "y \<le> real_of_int n" unfolding y_def True using q by (simp only: div_powi_le)
    then have "rne y \<le> n" by (rule rne_le)
    then show ?thesis using True by simp
  next
    case False
    then have "t' + 1 \<le> t" using t't by simp
    then have "(t' + 1074) * 2 ^ 52 + 2 ^ 53 \<le> (t + 1074) * 2 ^ 52 + (2 ^ 52 :: int)" by simp
    then show ?thesis using r53 n by linarith
  qed
  have "fp64_round_mag num den = min ((t' + 1074) * 2 ^ 52 + rne y) 0x7ff0000000000000"
    using round_mag_char[OF assms(1,2) b] by (simp add: t'_def y_def)
  then show ?thesis using enc by simp
qed

lemma round_mag_ge:
  assumes "0 < num" "0 < den"
    and q: "real_of_int n * 2 powi t \<le> real_of_int num / real_of_int den"
    and n: "2 ^ 52 \<le> n" "n < 2 ^ 53" and t: "- 1074 \<le> t"
  shows "min ((t + 1074) * 2 ^ 52 + n) 0x7ff0000000000000 \<le> fp64_round_mag num den"
proof -
  let ?q = "real_of_int num / real_of_int den"
  define e where "e = floor_log2 num den"
  have b: "2 powi e \<le> ?q" "?q < 2 powi (e + 1)"
    using floor_log2_bounds[OF assms(1,2)] by (simp_all add: e_def)
  define t' where "t' = max e (- 1022) - 52"
  define y where "y = ?q / 2 powi t'"
  have rn: "2 ^ 52 \<le> real_of_int n" "real_of_int n < 2 ^ 53"
    using n by (simp_all flip: of_int_le_iff of_int_less_iff)
  have p: "0 < (2::real) powi t" by simp
  have "2 ^ 52 * 2 powi t \<le> real_of_int n * 2 powi t" using rn p by (simp add: mult_right_mono)
  then have "(2::real) powi (t + 52) < 2 powi (e + 1)" using b(2) q unfolding powi_52 by linarith
  then have et: "t + 52 < e + 1" by (rule powi_less_imp)
  then have t'e: "t' = e - 52" using t by (simp add: t'_def)
  have tt': "t \<le> t'" using et t'e by simp
  have y52: "2 ^ 52 \<le> y"
  proof -
    have "(2::real) powi e = 2 ^ 52 * 2 powi t'" using powi_52[of t'] by (simp add: t'e)
    then have "2 ^ 52 * 2 powi t' \<le> ?q" using b(1) by simp
    then show ?thesis unfolding y_def by (simp only: div_powi_ge)
  qed
  have r52: "2 ^ 52 \<le> rne y"
  proof -
    have "of_int (2 ^ 52) \<le> y" using y52 by simp
    then show ?thesis by (rule rne_ge)
  qed
  have enc: "(t + 1074) * 2 ^ 52 + n \<le> (t' + 1074) * 2 ^ 52 + rne y"
  proof (cases "t' = t")
    case True
    have "real_of_int n \<le> y" unfolding y_def True using q by (simp only: div_powi_ge)
    then have "n \<le> rne y" by (rule rne_ge)
    then show ?thesis using True by simp
  next
    case False
    then have "t + 1 \<le> t'" using tt' by simp
    then have "(t + 1074) * 2 ^ 52 + 2 ^ 53 \<le> (t' + 1074) * 2 ^ 52 + (2 ^ 52 :: int)" by simp
    then show ?thesis using r52 n by linarith
  qed
  have "fp64_round_mag num den = min ((t' + 1074) * 2 ^ 52 + rne y) 0x7ff0000000000000"
    using round_mag_char[OF assms(1,2) b] by (simp add: t'_def y_def)
  then show ?thesis using enc by simp
qed

lemma tb64: "take_bit 64 (uint (x::64 word)) = uint x"
  using uint_lt2p[of x] by (simp add: take_bit_int_eq_self)

lemma uint_woi: "0 \<le> K \<Longrightarrow> K < 2 ^ 64 \<Longrightarrow> uint (word_of_int K :: 64 word) = K"
  by (simp add: uint_word_of_int)

lemma uint_bexp: "uint (fp64_get_biased_exponent x) = take_bit 11 (drop_bit 52 (uint x))"
  by (simp add: bexp_alt unsigned_take_bit_eq unsigned_drop_bit_eq tb64)

lemma uint_frac: "uint (fp64_get_fraction x) = take_bit 52 (uint x)"
  by (simp add: frac_alt unsigned_take_bit_eq)

lemma uint_sign: "uint (fp64_get_sign x) = drop_bit 63 (uint x)"
  by (simp add: sign_alt unsigned_drop_bit_eq tb64)

lemma uint_fabs: "uint (fp64_fabs x) = take_bit 63 (uint x)"
  by (simp add: fabs_alt unsigned_take_bit_eq)

lemma uint_fabs_fields:
  "uint (fp64_fabs x) = uint (fp64_get_biased_exponent x) * 2 ^ 52 + uint (fp64_get_fraction x)"
proof -
  have "take_bit 63 (uint x) = push_bit 52 (drop_bit 52 (take_bit 63 (uint x))) + take_bit 52 (take_bit 63 (uint x))"
    by (simp only: bits_ident)
  also have "drop_bit 52 (take_bit 63 (uint x)) = take_bit 11 (drop_bit 52 (uint x))"
    by (simp add: drop_bit_take_bit)
  also have "take_bit 52 (take_bit 63 (uint x)) = take_bit 52 (uint x)" by simp
  finally show ?thesis by (simp add: uint_fabs uint_bexp uint_frac push_bit_eq_mult)
qed

lemma uint_frac_bounds: "0 \<le> uint (fp64_get_fraction x)" "uint (fp64_get_fraction x) < 2 ^ 52"
  using take_bit_int_less_exp[of 52 "uint x"] by (simp_all add: uint_frac)

lemma uint_bexp_bounds: "0 \<le> uint (fp64_get_biased_exponent x)" "uint (fp64_get_biased_exponent x) < 2 ^ 11"
  using take_bit_int_less_exp[of 11 "drop_bit 52 (uint x)"] by (simp_all add: uint_bexp)

lemma uint_fabs_enc: "uint (fp64_fabs x) = (fp64_expo x + 1074) * 2 ^ 52 + fp64_mant x"
  by (simp add: uint_fabs_fields fp64_expo_def fp64_mant_def uint_0_iff)

lemma mant_normal: "fp64_get_biased_exponent x \<noteq> 0 \<Longrightarrow> 2 ^ 52 \<le> fp64_mant x \<and> fp64_mant x < 2 ^ 53"
  using uint_frac_bounds[of x] by (simp add: fp64_mant_def)

lemma mant_nonneg: "0 \<le> fp64_mant x"
  using uint_frac_bounds[of x] by (simp add: fp64_mant_def)

lemma sign_cases: "fp64_get_sign x = 0 \<or> fp64_get_sign x = 1"
proof -
  have "uint (fp64_get_sign x) < 2"
    using uint_lt2p[of x] by (simp add: uint_sign drop_bit_eq_div)
  moreover have "0 \<le> uint (fp64_get_sign x)" by simp
  ultimately have "uint (fp64_get_sign x) = 0 \<or> uint (fp64_get_sign x) = 1" by linarith
  then show ?thesis by (auto simp add: word_uint_eq_iff)
qed

lemma uint_pack:
  assumes "0 \<le> B" "B < 2 ^ 63"
  shows "uint (fp64_pack s B) = (if s then 2 ^ 63 else 0) + B"
proof -
  have b: "uint (word_of_int B :: 64 word) = B" using assms by (simp add: uint_woi)
  show ?thesis
  proof (cases s)
    case True
    have "uint (fp64_pack s B) = (2 ^ 63 + B) mod 2 ^ 64"
      using True by (simp add: fp64_pack_def uint_word_ariths b)
    also have "\<dots> = 2 ^ 63 + B" using assms by simp
    finally show ?thesis using True by simp
  next
    case False
    then show ?thesis by (simp add: fp64_pack_def b)
  qed
qed

lemma fabs_pack:
  assumes "0 \<le> B" "B < 2 ^ 63"
  shows "uint (fp64_fabs (fp64_pack s B)) = B"
  using assms by (simp add: uint_fabs uint_pack[OF assms] take_bit_eq_mod)

lemma sign_pack:
  assumes "0 \<le> B" "B < 2 ^ 63"
  shows "fp64_get_sign (fp64_pack s B) = (if s then 1 else 0)"
proof -
  have "uint (fp64_get_sign (fp64_pack s B)) = (if s then 1 else 0)"
    using assms by (simp add: uint_sign uint_pack[OF assms] drop_bit_eq_div)
  then show ?thesis by (auto simp add: word_uint_eq_iff split: if_splits)
qed

lemma sgn_pack:
  assumes "0 \<le> B" "B < 2 ^ 63"
  shows "fp64_sgn (fp64_pack s B) = s"
  by (simp add: fp64_sgn_def sign_pack[OF assms])

lemma bexp_pack:
  assumes "0 \<le> B" "B < 2 ^ 63"
  shows "uint (fp64_get_biased_exponent (fp64_pack s B)) = B div 2 ^ 52"
proof -
  have "uint (fp64_fabs (fp64_pack s B)) div 2 ^ 52 = uint (fp64_get_biased_exponent (fp64_pack s B))"
    using uint_frac_bounds[of "fp64_pack s B"] by (simp add: uint_fabs_fields)
  then show ?thesis by (simp add: fabs_pack[OF assms])
qed

lemma frac_pack:
  assumes "0 \<le> B" "B < 2 ^ 63"
  shows "uint (fp64_get_fraction (fp64_pack s B)) = B mod 2 ^ 52"
proof -
  have "uint (fp64_fabs (fp64_pack s B)) mod 2 ^ 52 = uint (fp64_get_fraction (fp64_pack s B))"
    using uint_frac_bounds[of "fp64_pack s B"] by (simp add: uint_fabs_fields)
  then show ?thesis by (simp add: fabs_pack[OF assms])
qed

lemma finite_not_nan_inf: "fp64_finite x \<Longrightarrow> \<not> fp64_isnan x \<and> \<not> fp64_isinf x"
  by (simp add: fp64_finite_def fp64_isnan_def fp64_isinf_def)

lemma round_mag_cong:
  assumes "0 < num" "0 < den" "0 < num'" "0 < den'"
    and "real_of_int num / real_of_int den = real_of_int num' / real_of_int den'"
  shows "fp64_round_mag num den = fp64_round_mag num' den'"
proof -
  define e where "e = floor_log2 num den"
  have b: "2 powi e \<le> real_of_int num / real_of_int den" "real_of_int num / real_of_int den < 2 powi (e + 1)"
    using floor_log2_bounds[OF assms(1,2)] by (simp_all add: e_def)
  have b': "2 powi e \<le> real_of_int num' / real_of_int den'" "real_of_int num' / real_of_int den' < 2 powi (e + 1)"
    using b assms(5) by simp_all
  show ?thesis
    unfolding round_mag_char[OF assms(1,2) b] round_mag_char[OF assms(3,4) b'] assms(5) ..
qed

lemma round_ratio:
  "real_of_int (m * 2 ^ nat e) / real_of_int (2 ^ nat (- e)) = real_of_int m * 2 powi e"
  using scale_ratio[of 1 m "- e"] by (simp add: power_int_minus field_simps)

lemma round_mag_range:
  assumes "0 < den"
  shows "0 \<le> fp64_round_mag num den \<and> fp64_round_mag num den \<le> 0x7ff0000000000000"
proof (cases "0 < num")
  case False
  then show ?thesis by (simp add: fp64_round_mag_def)
next
  case True
  define e where "e = floor_log2 num den"
  have b: "2 powi e \<le> real_of_int num / real_of_int den" "real_of_int num / real_of_int den < 2 powi (e + 1)"
    using floor_log2_bounds[OF True assms] by (simp_all add: e_def)
  let ?t = "max e (- 1022) - 52"
  let ?y = "(real_of_int num / real_of_int den) / 2 powi ?t"
  have "0 \<le> ?y" using True assms by simp
  then have "of_int 0 \<le> ?y" by simp
  then have "0 \<le> rne ?y" by (rule rne_ge)
  moreover have "0 \<le> (?t + 1074) * 2 ^ 52" by simp
  ultimately have "0 \<le> (?t + 1074) * 2 ^ 52 + rne ?y" by linarith
  then show ?thesis unfolding round_mag_char[OF True assms b] by simp
qed

lemma uint_bexp_eq: "fp64_get_biased_exponent x = 0x7ff \<longleftrightarrow> uint (fp64_get_biased_exponent x) = 2047"
  by (simp add: word_uint_eq_iff)

lemma uint_bexp_eq0: "fp64_get_biased_exponent x = 0 \<longleftrightarrow> uint (fp64_get_biased_exponent x) = 0"
  by (simp add: word_uint_eq_iff)

lemma expo_normal: "fp64_get_biased_exponent x \<noteq> 0 \<Longrightarrow> fp64_expo x = uint (fp64_get_biased_exponent x) - 1075"
  by (simp add: fp64_expo_def)

lemma mant_frac0: "fp64_get_biased_exponent x \<noteq> 0 \<Longrightarrow> fp64_get_fraction x = 0 \<Longrightarrow> fp64_mant x = 2 ^ 52"
  by (simp add: fp64_mant_def)

lemma mul_pow2:
  assumes r: "fp64_get_biased_exponent r \<noteq> 0" "fp64_get_biased_exponent r \<noteq> 0x7ff"
    and c: "fp64_get_biased_exponent c \<noteq> 0" "fp64_get_biased_exponent c \<noteq> 0x7ff" "fp64_get_fraction c = 0"
    and s: "1024 \<le> uint (fp64_get_biased_exponent r) + uint (fp64_get_biased_exponent c)"
  shows "fp64_mul r c = fp64_pack (fp64_sgn r \<noteq> fp64_sgn c)
           (min (uint (fp64_fabs r) + (uint (fp64_get_biased_exponent c) - 1023) * 2 ^ 52) 0x7ff0000000000000)"
proof -
  let ?e = "fp64_expo r + fp64_expo c"
  let ?m = "fp64_mant r * fp64_mant c"
  have mc: "fp64_mant c = 2 ^ 52" using c by (simp add: mant_frac0)
  have mr: "2 ^ 52 \<le> fp64_mant r" "fp64_mant r < 2 ^ 53" using mant_normal[OF r(1)] by simp_all
  have mpos: "0 < ?m * 2 ^ nat ?e" using mr mc by simp
  have dpos: "0 < (2::int) ^ nat (- ?e)" by simp
  have "real_of_int ?m * 2 powi ?e = real_of_int (fp64_mant r) * (2 ^ 52 * 2 powi ?e)"
    by (simp add: mc)
  also have "2 ^ 52 * 2 powi ?e = (2::real) powi (?e + 52)" by (simp add: power_int_add)
  finally have q: "real_of_int (?m * 2 ^ nat ?e) / real_of_int (2 ^ nat (- ?e))
      = real_of_int (fp64_mant r) * 2 powi (?e + 52)"
    by (simp only: round_ratio)
  have t: "- 1074 \<le> ?e + 52" using s by (simp add: expo_normal r c)
  have "fp64_round_mag (?m * 2 ^ nat ?e) (2 ^ nat (- ?e))
      = min ((?e + 52 + 1074) * 2 ^ 52 + fp64_mant r) 0x7ff0000000000000"
    by (rule round_mag_exact[OF mpos dpos q mr t])
  also have "(?e + 52 + 1074) * 2 ^ 52 + fp64_mant r
      = uint (fp64_fabs r) + (uint (fp64_get_biased_exponent c) - 1023) * 2 ^ 52"
    by (simp add: uint_fabs_enc expo_normal r c algebra_simps)
  finally have rm: "fp64_round_mag (?m * 2 ^ nat ?e) (2 ^ nat (- ?e))
      = min (uint (fp64_fabs r) + (uint (fp64_get_biased_exponent c) - 1023) * 2 ^ 52) 0x7ff0000000000000" .
  have "\<not> fp64_isnan r" "\<not> fp64_isnan c" "\<not> fp64_isinf r" "\<not> fp64_isinf c"
    using r c by (simp_all add: fp64_isnan_def fp64_isinf_def)
  then have "fp64_mul r c = fp64_round (fp64_sgn r \<noteq> fp64_sgn c) ?m ?e"
    by (simp add: fp64_mul_def)
  also have "\<dots> = fp64_pack (fp64_sgn r \<noteq> fp64_sgn c)
      (fp64_round_mag (?m * 2 ^ nat ?e) (2 ^ nat (- ?e)))"
    by (simp only: fp64_round_def)
  finally show ?thesis by (simp only: rm)
qed

lemma mul_pow2_num:
  assumes "1 \<le> a" "a \<le> 2046" "1 \<le> b" "b \<le> 2046" "1024 \<le> a + b"
  shows "fp64_mul (word_of_int (a * 2 ^ 52)) (word_of_int (b * 2 ^ 52))
         = word_of_int (min ((a + b - 1023) * 2 ^ 52) 0x7ff0000000000000)"
proof -
  define A where "A = a * 2 ^ 52"
  define B where "B = b * 2 ^ 52"
  define x where "x = fp64_pack False A"
  define y where "y = fp64_pack False B"
  have ra: "0 \<le> A" "A < 2 ^ 63" using assms by (simp_all add: A_def)
  have rb: "0 \<le> B" "B < 2 ^ 63" using assms by (simp_all add: B_def)
  have pa: "(word_of_int A :: 64 word) = x" by (simp add: fp64_pack_def x_def)
  have pb: "(word_of_int B :: 64 word) = y" by (simp add: fp64_pack_def y_def)
  have ea: "uint (fp64_get_biased_exponent x) = a"
    unfolding x_def bexp_pack[OF ra] by (simp add: A_def)
  have eb: "uint (fp64_get_biased_exponent y) = b"
    unfolding y_def bexp_pack[OF rb] by (simp add: B_def)
  have "uint (fp64_get_fraction y) = 0"
    unfolding y_def frac_pack[OF rb] by (simp add: B_def)
  then have fb: "fp64_get_fraction y = 0" by (simp add: word_uint_eq_iff)
  have na: "fp64_get_biased_exponent x \<noteq> 0" "fp64_get_biased_exponent x \<noteq> 0x7ff"
    using ea assms by (auto simp add: word_uint_eq_iff)
  have nb: "fp64_get_biased_exponent y \<noteq> 0" "fp64_get_biased_exponent y \<noteq> 0x7ff"
    using eb assms by (auto simp add: word_uint_eq_iff)
  have s: "1024 \<le> uint (fp64_get_biased_exponent x) + uint (fp64_get_biased_exponent y)"
    using assms by (simp add: ea eb)
  have sx: "fp64_sgn x = False" unfolding x_def by (rule sgn_pack[OF ra])
  have sy: "fp64_sgn y = False" unfolding y_def by (rule sgn_pack[OF rb])
  have fx: "uint (fp64_fabs x) = A" unfolding x_def by (rule fabs_pack[OF ra])
  have e: "A + (b - 1023) * 2 ^ 52 = (a + b - 1023) * 2 ^ 52" by (simp add: A_def algebra_simps)
  have "fp64_mul x y = fp64_pack False (min ((a + b - 1023) * 2 ^ 52) 0x7ff0000000000000)"
    unfolding mul_pow2[OF na nb fb s] sx sy fx eb e by simp
  then show ?thesis
    unfolding pa[symmetric] pb[symmetric] A_def B_def by (simp add: fp64_pack_def)
qed

lemma rep17: "replicate 17 x = [x,x,x,x,x,x,x,x,x,x,x,x,x,x,x,x,x]"
  by (simp add: numeral_eq_Suc)

section \<open>Products of sequences\<close>

text \<open>
  Claim C3. In the batched products no accumulator should ever overflow the
  native double. The 4-way product of 17 copies of the canonical value \<open>2^63\<close>
  (\<open>fp = 2^63\<close>, \<open>exp = 0\<close>) leaves its main loop after 3 rounds, so that
  \<^verbatim>\<open>count * 4 > EFP64_MAX_MUL\<close> is false and the four accumulators, \<open>2^252\<close> each,
  are multiplied together without canonicalization; the product \<open>2^1008\<close> is
  then multiplied by the element left over, and the accumulator becomes
  infinite. The closing canonicalization turns the infinity into \<open>1.0\<close> with
  \<open>exp = 1024\<close>, that is \<open>2^1024\<close>, for a product that is \<open>2^1071\<close>.
\<close>

theorem efp64_mul_seq_x4_overflow:
  "efp64_canonical \<lparr>fp = 0x43E0000000000000, exp = 0\<rparr> \<and>
   efp64_is_valid \<lparr>fp = 0x43E0000000000000, exp = 0\<rparr> \<and>
   efp64_mul_seq_x4_acc (replicate 17 \<lparr>fp = 0x43E0000000000000, exp = 0\<rparr>)
      = Some \<lparr>fp = 0x7FF0000000000000, exp = 0\<rparr> \<and>
   \<not> efp64_is_valid \<lparr>fp = 0x7FF0000000000000, exp = 0\<rparr> \<and>
   efp64_mul_seq (replicate 17 \<lparr>fp = 0x43E0000000000000, exp = 0\<rparr>)
      = Some \<lparr>fp = 0x3FF0000000000000, exp = 1024\<rparr>"
proof -
  have p0: "fp64_mul 0x43E0000000000000 0x43E0000000000000 = 0x47D0000000000000"
    using mul_pow2_num[of 1086 1086] by simp
  have p1: "fp64_mul 0x47D0000000000000 0x43E0000000000000 = 0x4BC0000000000000"
    using mul_pow2_num[of 1149 1086] by simp
  have p2: "fp64_mul 0x4BC0000000000000 0x43E0000000000000 = 0x4FB0000000000000"
    using mul_pow2_num[of 1212 1086] by simp
  have p3: "fp64_mul 0x4FB0000000000000 0x4FB0000000000000 = 0x5F70000000000000"
    using mul_pow2_num[of 1275 1275] by simp
  have p4: "fp64_mul 0x5F70000000000000 0x4FB0000000000000 = 0x6F30000000000000"
    using mul_pow2_num[of 1527 1275] by simp
  have p5: "fp64_mul 0x6F30000000000000 0x4FB0000000000000 = 0x7EF0000000000000"
    using mul_pow2_num[of 1779 1275] by simp
  have p6: "fp64_mul 0x7EF0000000000000 0x43E0000000000000 = 0x7FF0000000000000"
    using mul_pow2_num[of 2031 1086] by simp
  have acc: "efp64_mul_seq_x4_acc (replicate 17 \<lparr>fp = 0x43E0000000000000, exp = 0\<rparr>)
      = Some \<lparr>fp = 0x7FF0000000000000, exp = 0\<rparr>"
    by (simp add: rep17 efp64_mul_seq_x4_acc_def efp64_mul_seq_x4_loop.simps efp64_quick_mul_def
        EFP64_MAX_MUL_val p0 p1 p2 p3 p4 p5 p6)
  have c: "efp64_canonicalize \<lparr>fp = 0x7FF0000000000000, exp = 0\<rparr>
      = \<lparr>fp = 0x3FF0000000000000, exp = 1024\<rparr>"
    by code_simp
  have v: "efp64_canonical \<lparr>fp = 0x43E0000000000000, exp = 0\<rparr>"
       "efp64_is_valid \<lparr>fp = 0x43E0000000000000, exp = 0\<rparr>"
       "\<not> efp64_is_valid \<lparr>fp = 0x7FF0000000000000, exp = 0\<rparr>"
    by code_simp+
  show ?thesis
    using v by (simp add: acc c efp64_mul_seq_def efp64_mul_seq_x4_def)
qed

lemma finite_nan_inf: "fp64_finite x \<Longrightarrow> \<not> fp64_isnan x" "fp64_finite x \<Longrightarrow> \<not> fp64_isinf x"
  by (simp_all add: fp64_finite_def fp64_isnan_def fp64_isinf_def)

lemma pow_nat_powi: "0 \<le> k \<Longrightarrow> real_of_int (2 ^ nat k) = 2 powi k"
  by (simp add: power_int_def)

lemma absval_nonneg: "0 \<le> fp64_absval x"
  using mant_nonneg[of x] by (simp add: fp64_absval_def)

lemma fma_finite:
  assumes f: "fp64_finite x" "fp64_finite y" "fp64_finite z"
  defines "V \<equiv> (if fp64_sgn x \<noteq> fp64_sgn y then - 1 else 1) * fp64_absval x * fp64_absval y + fp64_value z"
  shows "(V = 0 \<longrightarrow> fp64_fma x y z = fp64_pack ((fp64_sgn x \<noteq> fp64_sgn y) \<and> fp64_sgn z) 0) \<and>
         (V \<noteq> 0 \<longrightarrow> (\<exists>N D. 0 < N \<and> 0 < D \<and> real_of_int N / real_of_int D = \<bar>V\<bar> \<and>
              fp64_fma x y z = fp64_pack (V < 0) (fp64_round_mag N D)))"
proof -
  define sp where "sp = (fp64_sgn x \<noteq> fp64_sgn y)"
  define sz where "sz = fp64_sgn z"
  define ep where "ep = fp64_expo x + fp64_expo y"
  define ez where "ez = fp64_expo z"
  define em where "em = min ep ez"
  define P where "P = fp64_mant x * fp64_mant y * 2 ^ nat (ep - em)"
  define Z where "Z = fp64_mant z * 2 ^ nat (ez - em)"
  define S where "S = (if sp then - P else P) + (if sz then - Z else Z)"
  have nn: "\<not> fp64_isnan x" "\<not> fp64_isnan y" "\<not> fp64_isnan z"
           "\<not> fp64_isinf x" "\<not> fp64_isinf y" "\<not> fp64_isinf z"
    using f by (simp_all add: finite_nan_inf)
  have fma: "fp64_fma x y z = (if S = 0 then fp64_pack (sp \<and> sz) 0 else fp64_round (S < 0) \<bar>S\<bar> em)"
    using nn unfolding fp64_fma_def Let_def S_def P_def Z_def em_def ep_def ez_def sp_def sz_def
    by simp
  have rP: "real_of_int P * 2 powi em = fp64_absval x * fp64_absval y"
  proof -
    have "real_of_int P = real_of_int (fp64_mant x) * real_of_int (fp64_mant y) * 2 powi (ep - em)"
      by (simp add: P_def em_def power_int_def)
    then have "real_of_int P * 2 powi em
        = real_of_int (fp64_mant x) * real_of_int (fp64_mant y) * (2 powi (ep - em) * 2 powi em)"
      by simp
    also have "2 powi (ep - em) * 2 powi em = (2::real) powi ep"
      by (simp flip: power_int_add)
    also have "(2::real) powi ep = 2 powi fp64_expo x * 2 powi fp64_expo y"
      by (simp add: ep_def power_int_add)
    finally show ?thesis by (simp add: fp64_absval_def)
  qed
  have rZ: "real_of_int Z * 2 powi em = fp64_absval z"
  proof -
    have "real_of_int Z = real_of_int (fp64_mant z) * 2 powi (ez - em)"
      by (simp add: Z_def em_def power_int_def)
    then have "real_of_int Z * 2 powi em = real_of_int (fp64_mant z) * (2 powi (ez - em) * 2 powi em)"
      by simp
    also have "2 powi (ez - em) * 2 powi em = (2::real) powi ez"
      by (simp flip: power_int_add)
    finally show ?thesis by (simp add: fp64_absval_def ez_def)
  qed
  have rS: "real_of_int S * 2 powi em = V"
  proof -
    have "real_of_int S * 2 powi em
       = (if sp then - (real_of_int P * 2 powi em) else real_of_int P * 2 powi em)
       + (if sz then - (real_of_int Z * 2 powi em) else real_of_int Z * 2 powi em)"
      by (simp add: S_def algebra_simps)
    then show ?thesis unfolding rP rZ V_def fp64_value_def sp_def sz_def by simp
  qed
  have p: "0 < (2::real) powi em" by simp
  have z: "S = 0 \<longleftrightarrow> V = 0" using rS p by (metis mult_eq_0_iff of_int_eq_0_iff less_irrefl)
  have neg: "S < 0 \<longleftrightarrow> V < 0"
    using rS p by (metis mult_less_0_iff of_int_less_0_iff not_less less_le)
  have ab: "real_of_int \<bar>S\<bar> * 2 powi em = \<bar>V\<bar>"
    using rS p by (simp add: abs_mult flip: rS)
  show ?thesis
  proof (intro conjI impI)
    assume "V = 0"
    then show "fp64_fma x y z = fp64_pack ((fp64_sgn x \<noteq> fp64_sgn y) \<and> fp64_sgn z) 0"
      using fma z by (simp add: sp_def sz_def)
  next
    assume v: "V \<noteq> 0"
    then have s: "S \<noteq> 0" using z by simp
    let ?N = "\<bar>S\<bar> * 2 ^ nat em" and ?D = "(2::int) ^ nat (- em)"
    have "0 < ?N" using s by simp
    moreover have "0 < ?D" by simp
    moreover have "real_of_int ?N / real_of_int ?D = \<bar>V\<bar>"
      by (simp only: round_ratio ab)
    moreover have "fp64_fma x y z = fp64_pack (V < 0) (fp64_round_mag ?N ?D)"
      using fma s neg by (simp add: fp64_round_def)
    ultimately show "\<exists>N D. 0 < N \<and> 0 < D \<and> real_of_int N / real_of_int D = \<bar>V\<bar> \<and>
              fp64_fma x y z = fp64_pack (V < 0) (fp64_round_mag N D)"
      by blast
  qed
qed

lemma one_fields:
  "fp64_get_biased_exponent 0x3ff0000000000000 = 0x3ff"
  "fp64_get_fraction 0x3ff0000000000000 = 0"
  "fp64_get_sign 0x3ff0000000000000 = 0"
  by code_simp+

lemma absval_one: "fp64_absval 0x3ff0000000000000 = 1"
  by (simp add: fp64_absval_def fp64_mant_def fp64_expo_def one_fields)

lemma sgn_one: "fp64_sgn 0x3ff0000000000000 = False"
  by (simp add: fp64_sgn_def one_fields)

lemma finite_one: "fp64_finite 0x3ff0000000000000"
  by (simp add: fp64_finite_def one_fields)

lemma finite_0: "fp64_finite 0"
  by (simp add: fp64_finite_def bexp_0)

lemma absval_0: "fp64_absval 0 = 0"
  by (simp add: fp64_absval_def fp64_mant_def bexp_0 frac_0)

lemma fma_comm_one:
  assumes "fp64_finite x" "fp64_finite y"
  shows "fp64_fma x 0x3ff0000000000000 y = fp64_fma y 0x3ff0000000000000 x"
proof -
  define V where "V = fp64_value x + fp64_value y"
  have v1: "(if fp64_sgn x \<noteq> fp64_sgn 0x3ff0000000000000 then - 1 else 1) * fp64_absval x * fp64_absval 0x3ff0000000000000
      + fp64_value y = V"
    by (simp add: V_def fp64_value_def sgn_one absval_one)
  have v2: "(if fp64_sgn y \<noteq> fp64_sgn 0x3ff0000000000000 then - 1 else 1) * fp64_absval y * fp64_absval 0x3ff0000000000000
      + fp64_value x = V"
    by (simp add: V_def fp64_value_def sgn_one absval_one)
  note a = fma_finite[OF assms(1) finite_one assms(2), unfolded v1]
  note b = fma_finite[OF assms(2) finite_one assms(1), unfolded v2]
  show ?thesis
  proof (cases "V = 0")
    case True
    then show ?thesis using a b by (simp add: sgn_one conj_commute)
  next
    case False
    from a False obtain N D where n: "0 < N" "0 < D" "real_of_int N / real_of_int D = \<bar>V\<bar>"
      "fp64_fma x 0x3ff0000000000000 y = fp64_pack (V < 0) (fp64_round_mag N D)" by blast
    from b False obtain N' D' where n': "0 < N'" "0 < D'" "real_of_int N' / real_of_int D' = \<bar>V\<bar>"
      "fp64_fma y 0x3ff0000000000000 x = fp64_pack (V < 0) (fp64_round_mag N' D')" by blast
    have "fp64_round_mag N D = fp64_round_mag N' D'"
      using n n' by (intro round_mag_cong) simp_all
    then show ?thesis using n(4) n'(4) by simp
  qed
qed

lemma in_window_iff:
  "efp64_in_window a \<longleftrightarrow>
     1023 \<le> uint (fp64_get_biased_exponent (fp a)) \<and> uint (fp64_get_biased_exponent (fp a)) < 1087
     \<and> lo_part (exp a) 6 = 0"
  by (simp add: efp64_in_window_def fp64_get_exponent_def FP64_BIAS_def EXP_MODULUS_val EXP_BITS_def
      word_sle_eq word_sless_alt sint_bexp Let_def)

lemma in_window_finite: "efp64_in_window a \<Longrightarrow> fp64_finite (fp a)"
  by (auto simp add: in_window_iff fp64_finite_def)

lemma canonical_finite: "efp64_canonical a \<Longrightarrow> fp64_finite (fp a)"
  by (auto simp add: efp64_canonical_def in_window_finite efp64_zero_def finite_0)

lemma power2_0: "fp64_power2 0 = 0x3ff0000000000000"
  by code_simp

lemma sless_cases: "(x::64 word) <s y \<or> y <s x \<or> x = y"
  using signed.less_linear[of x y] by blast

lemma sless_asym: "(x::64 word) <s y \<Longrightarrow> \<not> y <s x"
  by (simp add: word_sless_alt)

section \<open>Addition\<close>

text \<open>
  Claim C7. Addition is exactly commutative: for all canonical values \<open>a\<close> and
  \<open>b\<close>, \<^verbatim>\<open>efp64_add(a, b)\<close> and \<^verbatim>\<open>efp64_add(b, a)\<close> are the same significand bits
  and the same exponent. When the exponents differ, both calls evaluate the
  same \<^verbatim>\<open>fma\<close>, whether or not the scale factor underflows to zero; when they
  are equal, the two sums round the same exact value.
\<close>

theorem efp64_add_commute:
  assumes "efp64_canonical a" "efp64_canonical b"
  shows "efp64_add a b = efp64_add b a"
proof -
  have fa: "fp64_finite (fp a)" and fb: "fp64_finite (fp b)"
    using assms by (simp_all add: canonical_finite)
  consider "exp b <s exp a" | "exp a <s exp b" | "exp a = exp b"
    using sless_cases[of "exp a" "exp b"] by blast
  then show ?thesis
  proof cases
    case 1
    then show ?thesis using sless_asym[OF 1] by (simp add: efp64_add_def)
  next
    case 2
    then show ?thesis using sless_asym[OF 2] by (simp add: efp64_add_def)
  next
    case 3
    then show ?thesis
      using fma_comm_one[OF fa fb] by (simp add: efp64_add_def power2_0 word_sless_alt)
  qed
qed


theorem efp64_add_commute_witness:
  "efp64_canonical \<lparr>fp = 0x3ff8000000000000, exp = 0\<rparr> \<and>
   efp64_canonical \<lparr>fp = 0xc3e0000000000001, exp = 64\<rparr> \<and>
   efp64_add \<lparr>fp = 0x3ff8000000000000, exp = 0\<rparr> \<lparr>fp = 0xc3e0000000000001, exp = 64\<rparr>
     = efp64_add \<lparr>fp = 0xc3e0000000000001, exp = 64\<rparr> \<lparr>fp = 0x3ff8000000000000, exp = 0\<rparr>"
proof -
  have a: "efp64_canonical \<lparr>fp = 0x3ff8000000000000, exp = 0\<rparr>"
    by code_simp
  have b: "efp64_canonical \<lparr>fp = 0xc3e0000000000001, exp = 64\<rparr>"
    by code_simp
  show ?thesis using efp64_add_commute[OF a b] a b by simp
qed

lemma pack_self: "fp64_pack (fp64_sgn x) (uint (fp64_fabs x)) = x"
proof -
  have r: "0 \<le> uint (fp64_fabs x)" "uint (fp64_fabs x) < 2 ^ 63"
    using take_bit_int_less_exp[of 63 "uint x"] by (simp_all add: uint_fabs)
  have "uint x = push_bit 63 (drop_bit 63 (uint x)) + take_bit 63 (uint x)"
    by (simp only: bits_ident)
  then have ux: "uint x = uint (fp64_get_sign x) * 2 ^ 63 + uint (fp64_fabs x)"
    by (simp add: uint_sign uint_fabs push_bit_eq_mult)
  have "uint (fp64_pack (fp64_sgn x) (uint (fp64_fabs x))) = uint x"
    using sign_cases[of x] unfolding uint_pack[OF r] ux by (auto simp add: fp64_sgn_def)
  then show ?thesis by (simp add: word_uint_eq_iff)
qed

lemma fabs_lt_inf: "fp64_finite x \<Longrightarrow> uint (fp64_fabs x) < 0x7ff0000000000000"
proof -
  assume "fp64_finite x"
  then have "uint (fp64_get_biased_exponent x) \<noteq> 2047" by (simp add: fp64_finite_def uint_bexp_eq)
  then have "uint (fp64_get_biased_exponent x) \<le> 2046" using uint_bexp_bounds[of x] by simp
  then show ?thesis using uint_frac_bounds[of x] by (simp add: uint_fabs_fields)
qed

lemma scaled_le:
  fixes c :: int
  assumes "0 \<le> f" "f < c"
  shows "L \<le> e \<longleftrightarrow> L * c \<le> e * c + f"
proof
  assume "L \<le> e"
  then have "L * c \<le> e * c" using assms by (simp add: mult_right_mono)
  then show "L * c \<le> e * c + f" using assms by linarith
next
  assume h: "L * c \<le> e * c + f"
  show "L \<le> e"
  proof (rule ccontr)
    assume "\<not> L \<le> e"
    then have "e + 1 \<le> L" by simp
    then have "(e + 1) * c \<le> L * c" using assms by (simp add: mult_right_mono)
    then have "e * c + c \<le> L * c" by (simp add: algebra_simps)
    then show False using h assms by linarith
  qed
qed

lemma bexp_ge_iff: "L \<le> uint (fp64_get_biased_exponent x) \<longleftrightarrow> L * 2 ^ 52 \<le> uint (fp64_fabs x)"
  unfolding uint_fabs_fields using uint_frac_bounds[of x] by (intro scaled_le) simp_all

lemma bexp_less_iff: "uint (fp64_get_biased_exponent x) < H \<longleftrightarrow> uint (fp64_fabs x) < H * 2 ^ 52"
  using bexp_ge_iff[of H x] by linarith

lemma round_self:
  assumes x: "fp64_get_biased_exponent x \<noteq> 0" "fp64_finite x"
    and n: "0 < N" "0 < D" "real_of_int N / real_of_int D = fp64_absval x"
  shows "fp64_round_mag N D = uint (fp64_fabs x)"
proof -
  have m: "2 ^ 52 \<le> fp64_mant x" "fp64_mant x < 2 ^ 53" using mant_normal[OF x(1)] by simp_all
  have "uint (fp64_get_biased_exponent x) \<noteq> 0" using x(1) by (simp add: uint_0_iff)
  then have "1 \<le> uint (fp64_get_biased_exponent x)" using uint_bexp_bounds[of x] by linarith
  then have t: "- 1074 \<le> fp64_expo x" by (simp add: fp64_expo_def)
  have q: "real_of_int N / real_of_int D = real_of_int (fp64_mant x) * 2 powi fp64_expo x"
    using n(3) by (simp add: fp64_absval_def)
  have "fp64_round_mag N D = min ((fp64_expo x + 1074) * 2 ^ 52 + fp64_mant x) 0x7ff0000000000000"
    by (rule round_mag_exact[OF n(1,2) q m t])
  then show ?thesis using fabs_lt_inf[OF x(2)] by (simp add: uint_fabs_enc)
qed

lemma absval_pos: "fp64_get_biased_exponent x \<noteq> 0 \<Longrightarrow> 0 < fp64_absval x"
  using mant_normal[of x] by (simp add: fp64_absval_def)

lemma fma_zero_scale:
  assumes "fp64_finite x" "fp64_get_biased_exponent z \<noteq> 0" "fp64_finite z"
  shows "fp64_fma x 0 z = z"
proof -
  have v: "(if fp64_sgn x \<noteq> fp64_sgn 0 then - 1 else 1) * fp64_absval x * fp64_absval 0 + fp64_value z
        = fp64_value z"
    by (simp add: absval_0)
  note a = fma_finite[OF assms(1) finite_0 assms(3), unfolded v]
  have p: "0 < fp64_absval z" using assms(2) by (rule absval_pos)
  then have nz: "fp64_value z \<noteq> 0" by (simp add: fp64_value_def)
  have sg: "fp64_value z < 0 \<longleftrightarrow> fp64_sgn z" using p by (simp add: fp64_value_def)
  have ab: "\<bar>fp64_value z\<bar> = fp64_absval z" using p by (simp add: fp64_value_def)
  from a nz obtain N D where n: "0 < N" "0 < D" "real_of_int N / real_of_int D = fp64_absval z"
    "fp64_fma x 0 z = fp64_pack (fp64_sgn z) (fp64_round_mag N D)"
    unfolding sg ab by blast
  show ?thesis unfolding n(4) round_self[OF assms(2,3) n(1,2,3)] by (rule pack_self)
qed

lemma sign_fabs: "fp64_get_sign (fp64_fabs x) = 0"
  unfolding sign_alt fabs_alt
  apply (rule bit_word_eqI)
  subgoal for n by (cases "n = 63") (auto simp add: bit_simps bit_0 dest: bit_imp_le_length)
  done

lemma fabs_fabs: "fp64_fabs (fp64_fabs x) = fp64_fabs x"
  by (simp add: fabs_alt)

lemma key_fabs: "fp64_key (fp64_fabs x) = uint (fp64_fabs x)"
  by (simp add: fp64_key_def sign_fabs fabs_fabs)

lemma isnan_fabs: "fp64_isnan (fp64_fabs x) = fp64_isnan x"
  by (simp add: fp64_isnan_def bexp_fabs frac_fabs)

lemma const_nan:
  "\<not> fp64_isnan 0x3ff0000000000000" "\<not> fp64_isnan 0x43F0000000000000" "\<not> fp64_isnan 0x3BF0000000000000"
  by code_simp+

lemma const_key:
  "fp64_key 0x3ff0000000000000 = 0x3ff0000000000000" "fp64_key 0x43F0000000000000 = 0x43F0000000000000"
  by code_simp+

lemma lt_fabs_one:
  "fp64_finite x \<Longrightarrow> fp64_lt (fp64_fabs x) 0x3ff0000000000000 \<longleftrightarrow> uint (fp64_fabs x) < 0x3ff0000000000000"
  by (simp add: fp64_lt_def isnan_fabs finite_nan_inf const_nan const_key key_fabs)

lemma ge_fabs_high:
  "fp64_finite x \<Longrightarrow> fp64_ge (fp64_fabs x) 0x43F0000000000000 \<longleftrightarrow> 0x43F0000000000000 \<le> uint (fp64_fabs x)"
  by (simp add: fp64_ge_def fp64_le_def isnan_fabs finite_nan_inf const_nan const_key key_fabs)

lemma power2_consts:
  "fp64_power2 EXP_MODULUS = 0x43F0000000000000" "fp64_power2 (- EXP_MODULUS) = 0x3BF0000000000000"
  by code_simp+

lemma in_window_fabs:
  "efp64_in_window a \<longleftrightarrow>
     0x3ff0000000000000 \<le> uint (fp64_fabs (fp a)) \<and> uint (fp64_fabs (fp a)) < 0x43F0000000000000
     \<and> lo_part (exp a) 6 = 0"
  using bexp_ge_iff[of 1023 "fp a"] bexp_less_iff[of "fp a" 1087] by (simp add: in_window_iff)

lemma quick_canonicalize_id: "efp64_in_window a \<Longrightarrow> efp64_quick_canonicalize a = a"
  using in_window_finite[of a]
  by (auto simp add: efp64_quick_canonicalize_def Let_def power2_consts lt_fabs_one ge_fabs_high in_window_fabs)

lemma sint_diff:
  "- (2 ^ 63) \<le> sint x - sint y \<Longrightarrow> sint x - sint y < 2 ^ 63 \<Longrightarrow> sint (x - y :: 64 word) = sint x - sint y"
  by (simp add: sint_word_diff signed_take_bit_int_eq_self)

lemma power2_underflow: "sint p \<le> - 1023 \<Longrightarrow> fp64_power2 p = 0"
  by (simp add: fp64_power2_def word_sle_eq FP64_BIAS_def)

text \<open>
  Claim C10, as amended. When \<open>a\<close> and \<open>b\<close> are canonical and non-zero and the
  exponent of \<open>a\<close> exceeds the exponent of \<open>b\<close> by at least 1024 and at most
  \<open>2^63\<close>, the scale factor \<^verbatim>\<open>fp64_power2\<close> is zero and the sum, in either order
  of the arguments, is \<open>a\<close> itself, bit for bit: \<open>b\<close> is absorbed. Up to \<open>2^63\<close>
  the difference \<^verbatim>\<open>b.exp - a.exp\<close> is the 64-bit integer it is computed in;
  nothing is stated beyond.
\<close>

theorem efp64_add_absorbs:
  assumes a: "efp64_in_window a" and b: "efp64_in_window b"
    and d: "1024 \<le> sint (exp a) - sint (exp b)" "sint (exp a) - sint (exp b) \<le> 2 ^ 63"
  shows "efp64_add a b = a \<and> efp64_add b a = a"
proof -
  have lt: "exp b <s exp a" "\<not> exp a <s exp b" using d by (simp_all add: word_sless_alt)
  have "sint (exp b - exp a) = sint (exp b) - sint (exp a)"
    using d by (intro sint_diff) simp_all
  then have "sint (exp b - exp a) \<le> - 1023" using d by simp
  then have p: "fp64_power2 (exp b - exp a) = 0" by (rule power2_underflow)
  have na: "fp64_get_biased_exponent (fp a) \<noteq> 0"
    using a by (auto simp add: in_window_iff)
  have f: "fp64_fma (fp b) 0 (fp a) = fp a"
    using in_window_finite[OF b] na in_window_finite[OF a] by (rule fma_zero_scale)
  have "\<lparr>fp = fp a, exp = exp a\<rparr> = a" by simp
  then have q: "efp64_quick_canonicalize \<lparr>fp = fp a, exp = exp a\<rparr> = a"
    using quick_canonicalize_id[OF a] by (simp only:)
  show ?thesis using lt by (simp add: efp64_add_def p f q)
qed

text \<open>The theorem at the largest difference it covers: \<open>a = 1.5 * 2^(2^62)\<close> and
  \<open>b = -(2^63 + 2^11) * 2^ZEXP\<close>, whose exponents differ by \<open>2^63\<close>.\<close>

theorem efp64_add_absorbs_witness:
  "efp64_in_window \<lparr>fp = 0x3ff8000000000000, exp = 0x4000000000000000\<rparr> \<and>
   efp64_in_window \<lparr>fp = 0xc3e0000000000001, exp = ZEXP\<rparr> \<and>
   sint (exp \<lparr>fp = 0x3ff8000000000000, exp = 0x4000000000000000\<rparr>)
              - sint (exp \<lparr>fp = 0xc3e0000000000001, exp = ZEXP\<rparr>) = 2 ^ 63 \<and>
   efp64_add \<lparr>fp = 0x3ff8000000000000, exp = 0x4000000000000000\<rparr> \<lparr>fp = 0xc3e0000000000001, exp = ZEXP\<rparr>
     = \<lparr>fp = 0x3ff8000000000000, exp = 0x4000000000000000\<rparr> \<and>
   efp64_add \<lparr>fp = 0xc3e0000000000001, exp = ZEXP\<rparr> \<lparr>fp = 0x3ff8000000000000, exp = 0x4000000000000000\<rparr>
     = \<lparr>fp = 0x3ff8000000000000, exp = 0x4000000000000000\<rparr>"
proof -
  have a: "efp64_in_window \<lparr>fp = 0x3ff8000000000000, exp = 0x4000000000000000\<rparr>"
    by code_simp
  have b: "efp64_in_window \<lparr>fp = 0xc3e0000000000001, exp = ZEXP\<rparr>"
    by code_simp
  have e: "sint (exp \<lparr>fp = 0x3ff8000000000000, exp = 0x4000000000000000\<rparr>)
              - sint (exp \<lparr>fp = 0xc3e0000000000001, exp = ZEXP\<rparr>) = 2 ^ 63"
    by (simp add: ZEXP_sint)
  have d: "1024 \<le> sint (exp \<lparr>fp = 0x3ff8000000000000, exp = 0x4000000000000000\<rparr>)
              - sint (exp \<lparr>fp = 0xc3e0000000000001, exp = ZEXP\<rparr>)"
       "sint (exp \<lparr>fp = 0x3ff8000000000000, exp = 0x4000000000000000\<rparr>)
              - sint (exp \<lparr>fp = 0xc3e0000000000001, exp = ZEXP\<rparr>) \<le> 2 ^ 63"
    unfolding e by simp_all
  show ?thesis using efp64_add_absorbs[OF a b d] a b e by simp
qed

text \<open>
  The claim fails when the difference of the exponents exceeds \<open>2^63\<close>. The
  values \<open>a = 1.0 * 2^(2^62)\<close> and \<open>b = 2^63 * 2^(ZEXP - 64)\<close> are canonical and
  non-zero and their exponents differ by \<open>2^63 + 64\<close>. The 64-bit difference
  \<^verbatim>\<open>b.exp - a.exp\<close> wraps around to \<open>2^63 - 64\<close>, the scale factor is not zero, and
  the sum is \<open>1.5 * 2^(2^62)\<close>, not \<open>a\<close>.
\<close>

theorem efp64_add_absorbs_wrap_counterexample:
  "efp64_in_window \<lparr>fp = 0x3ff0000000000000, exp = 0x4000000000000000\<rparr> \<and>
   efp64_in_window \<lparr>fp = 0x43e0000000000000, exp = ZEXP - 64\<rparr> \<and>
   1024 \<le> sint (exp \<lparr>fp = 0x3ff0000000000000, exp = 0x4000000000000000\<rparr>)
              - sint (exp \<lparr>fp = 0x43e0000000000000, exp = ZEXP - 64\<rparr>) \<and>
   efp64_add \<lparr>fp = 0x3ff0000000000000, exp = 0x4000000000000000\<rparr>
             \<lparr>fp = 0x43e0000000000000, exp = ZEXP - 64\<rparr>
     = \<lparr>fp = 0x3ff8000000000000, exp = 0x4000000000000000\<rparr> \<and>
   \<lparr>fp = 0x3ff8000000000000, exp = 0x4000000000000000\<rparr>
     \<noteq> \<lparr>fp = 0x3ff0000000000000, exp = 0x4000000000000000 :: int64_t\<rparr>"
  by code_simp

section \<open>Conversion of integers to double\<close>

lemma div_mod_block:
  fixes c :: int
  assumes "0 \<le> r" "r < c"
  shows "(a * c + r) div c = a" "(a * c + r) mod c = r"
  using assms by simp_all

lemma value_pack:
  assumes n: "2 ^ 52 \<le> n" "n < 2 ^ 53" and t: "- 1074 \<le> t" "t \<le> 971"
  shows "fp64_absval (fp64_pack s ((t + 1074) * 2 ^ 52 + n)) = real_of_int n * 2 powi t"
    and "fp64_sgn (fp64_pack s ((t + 1074) * 2 ^ 52 + n)) = s"
proof -
  define B where "B = (t + 1074) * 2 ^ 52 + n"
  define x where "x = fp64_pack s B"
  have r: "0 \<le> B" "B < 2 ^ 63" using n t by (simp_all add: B_def)
  have B2: "B = (t + 1075) * 2 ^ 52 + (n - 2 ^ 52)" by (simp add: B_def algebra_simps)
  have d: "B div 2 ^ 52 = t + 1075" unfolding B2 by (rule div_mod_block) (use n in simp_all)
  have m: "B mod 2 ^ 52 = n - 2 ^ 52" unfolding B2 by (rule div_mod_block) (use n in simp_all)
  have e: "uint (fp64_get_biased_exponent x) = t + 1075" unfolding x_def bexp_pack[OF r] by (rule d)
  have f: "uint (fp64_get_fraction x) = n - 2 ^ 52" unfolding x_def frac_pack[OF r] by (rule m)
  have nz: "fp64_get_biased_exponent x \<noteq> 0" using e t by (auto simp add: word_uint_eq_iff)
  have "fp64_mant x = n" using nz f by (simp add: fp64_mant_def)
  moreover have "fp64_expo x = t" using nz e by (simp add: fp64_expo_def)
  ultimately show "fp64_absval (fp64_pack s ((t + 1074) * 2 ^ 52 + n)) = real_of_int n * 2 powi t"
    by (simp add: fp64_absval_def x_def B_def)
  show "fp64_sgn (fp64_pack s ((t + 1074) * 2 ^ 52 + n)) = s"
    using sgn_pack[OF r, of s] by (simp add: B_def)
qed

lemma normalize_int:
  assumes "0 < m" "m \<le> 2 ^ 53"
  shows "\<exists>n t. 2 ^ 52 \<le> n \<and> n < 2 ^ 53 \<and> - 52 \<le> t \<and> t \<le> 1 \<and> real_of_int m = real_of_int n * 2 powi t"
proof -
  define e where "e = floor_log2 m 1"
  have b: "2 powi e \<le> real_of_int m" "real_of_int m < 2 powi (e + 1)"
    using floor_log2_bounds[of m 1] assms by (simp_all add: e_def)
  have "1 \<le> real_of_int m" using assms(1) by simp
  then have "(2::real) powi 0 < 2 powi (e + 1)" using b(2) by simp
  then have e0: "0 \<le> e" using powi_less_imp[of 0 "e + 1"] by simp
  have "real_of_int m \<le> real_of_int (2 ^ 53)" using assms(2) by (simp only: of_int_le_iff)
  then have "real_of_int m \<le> 2 ^ 53" by simp
  then have "(2::real) powi e < 2 powi 54" using b(1) by simp
  then have e53: "e \<le> 53" using powi_less_imp[of e 54] by simp
  show ?thesis
  proof (cases "e = 53")
    case True
    then have "2 ^ 53 \<le> real_of_int m" using b(1) by simp
    then have "real_of_int (2 ^ 53) \<le> real_of_int m" by simp
    then have "(2::int) ^ 53 \<le> m" by (simp only: of_int_le_iff)
    then have m53: "m = 2 ^ 53" using assms(2) by simp
    have "real_of_int m = real_of_int (2 ^ 52) * 2 powi 1" unfolding m53 by simp
    then have "2 ^ 52 \<le> (2::int) ^ 52 \<and> (2::int) ^ 52 < 2 ^ 53 \<and> - 52 \<le> (1::int) \<and> (1::int) \<le> 1
        \<and> real_of_int m = real_of_int (2 ^ 52) * 2 powi 1" by simp
    then show ?thesis by blast
  next
    case False
    then have e52: "e \<le> 52" using e53 by simp
    define k where "k = nat (52 - e)"
    define n where "n = m * 2 ^ k"
    have pk: "(2::real) ^ k = 2 powi (52 - e)" using e52 by (simp add: k_def power_int_def)
    have rn: "real_of_int n = real_of_int m * 2 powi (52 - e)" by (simp add: n_def pk)
    have p0: "0 \<le> (2::real) powi (52 - e)" by simp
    have "2 powi e * 2 powi (52 - e) \<le> real_of_int m * 2 powi (52 - e)"
      using b(1) p0 by (rule mult_right_mono)
    moreover have "(2::real) powi e * 2 powi (52 - e) = 2 powi 52"
      using power_int_add[of "2::real" e "52 - e"] by simp
    ultimately have "real_of_int (2 ^ 52) \<le> real_of_int n" unfolding rn by simp
    then have n1: "2 ^ 52 \<le> n" by (simp only: of_int_le_iff)
    have p1: "0 < (2::real) powi (52 - e)" by simp
    have "real_of_int m * 2 powi (52 - e) < 2 powi (e + 1) * 2 powi (52 - e)"
      using b(2) p1 by (rule mult_strict_right_mono)
    moreover have "(2::real) powi (e + 1) * 2 powi (52 - e) = 2 powi 53"
      using power_int_add[of "2::real" "e + 1" "52 - e"] by simp
    ultimately have "real_of_int n < real_of_int (2 ^ 53)" unfolding rn by simp
    then have n2: "n < 2 ^ 53" by (simp only: of_int_less_iff)
    have "(2::real) powi (52 - e) * 2 powi (e - 52) = 2 powi 0"
      using power_int_add[of "2::real" "52 - e" "e - 52"] by simp
    then have "real_of_int n * 2 powi (e - 52) = real_of_int m"
      unfolding rn by simp
    then have "2 ^ 52 \<le> n \<and> n < 2 ^ 53 \<and> - 52 \<le> e - 52 \<and> e - 52 \<le> 1
        \<and> real_of_int m = real_of_int n * 2 powi (e - 52)"
      using n1 n2 e0 e52 by simp
    then show ?thesis by blast
  qed
qed

lemma from_int64_exact:
  assumes "\<bar>sint k\<bar> \<le> 2 ^ 53"
  shows "fp64_value (fp64_from_int64 k) = real_of_int (sint k)"
proof (cases "sint k = 0")
  case True
  then show ?thesis
    by (simp add: fp64_from_int64_def fp64_round_def fp64_round_mag_def fp64_pack_def
        fp64_value_def absval_0)
next
  case False
  define m where "m = \<bar>sint k\<bar>"
  have mp: "0 < m" "m \<le> 2 ^ 53" using False assms by (simp_all add: m_def)
  from normalize_int[OF mp] obtain n t where
    nt: "2 ^ 52 \<le> n" "n < 2 ^ 53" "- 52 \<le> t" "t \<le> 1" "real_of_int m = real_of_int n * 2 powi t"
    by blast
  have q: "real_of_int (m * 2 ^ nat 0) / real_of_int (2 ^ nat (- 0)) = real_of_int n * 2 powi t"
    using nt(5) by simp
  have t1: "- 1074 \<le> t" "t \<le> 971" using nt by simp_all
  have "fp64_round_mag (m * 2 ^ nat 0) (2 ^ nat (- 0)) = min ((t + 1074) * 2 ^ 52 + n) 0x7ff0000000000000"
    using mp by (intro round_mag_exact[OF _ _ q nt(1,2) t1(1)]) simp_all
  also have "\<dots> = (t + 1074) * 2 ^ 52 + n" using nt by simp
  finally have r: "fp64_from_int64 k = fp64_pack (sint k < 0) ((t + 1074) * 2 ^ 52 + n)"
    by (simp add: fp64_from_int64_def fp64_round_def m_def)
  show ?thesis
    unfolding r fp64_value_def value_pack[OF nt(1,2) t1] nt(5)[symmetric]
    by (simp add: m_def)
qed

section \<open>Logarithm\<close>

lemma eq_one_not_le_0:
  assumes "fp64_eq d 0x3ff0000000000000"
  shows "\<not> fp64_le d 0"
  using assms by (simp add: fp64_eq_def fp64_le_def const_key key_0)

text \<open>
  Claim C8, as amended. For every value whose significand with zeroed
  exponent is \<open>1.0\<close>, a power of two \<open>2^K\<close> with \<open>K\<close> its full exponent,
  \<^verbatim>\<open>efp64_log2d\<close> returns the conversion \<^verbatim>\<open>(fp64_t) K\<close> of the 64-bit integer \<open>K\<close>
  to double, which is \<open>K\<close> rounded to the nearest double. The result is \<open>K\<close>
  exactly whenever \<open>|K| \<le> 2^53\<close>.
\<close>

theorem efp64_log2d_power_of_two:
  assumes "fp64_eq (efp64_zeroed_fraction a) 0x3ff0000000000000"
  shows "efp64_log2d c_log2 a = Some (fp64_from_int64 (efp64_full_exponent a)) \<and>
         (\<bar>sint (efp64_full_exponent a)\<bar> \<le> 2 ^ 53 \<longrightarrow>
            fp64_value (fp64_from_int64 (efp64_full_exponent a))
              = real_of_int (sint (efp64_full_exponent a)))"
  using assms eq_one_not_le_0[OF assms] from_int64_exact[of "efp64_full_exponent a"]
  by (simp add: efp64_log2d_def Let_def)

theorem efp64_log2d_power_of_two_witness:
  "fp64_eq (efp64_zeroed_fraction \<lparr>fp = 0x4000000000000000, exp = 2048\<rparr>) 0x3ff0000000000000 \<and>
   \<bar>sint (efp64_full_exponent \<lparr>fp = 0x4000000000000000, exp = 2048\<rparr>)\<bar> \<le> 2 ^ 53 \<and>
   efp64_log2d (\<lambda>x. x) \<lparr>fp = 0x4000000000000000, exp = 2048\<rparr>
     = Some (fp64_from_int64 (efp64_full_exponent \<lparr>fp = 0x4000000000000000, exp = 2048\<rparr>)) \<and>
   fp64_value (fp64_from_int64 (efp64_full_exponent \<lparr>fp = 0x4000000000000000, exp = 2048\<rparr>)) = 2049"
proof -
  have a: "fp64_eq (efp64_zeroed_fraction \<lparr>fp = 0x4000000000000000, exp = 2048\<rparr>) 0x3ff0000000000000"
    by code_simp
  have b: "sint (efp64_full_exponent \<lparr>fp = 0x4000000000000000, exp = 2048\<rparr>) = 2049"
    by code_simp
  show ?thesis
    using efp64_log2d_power_of_two[OF a, of "\<lambda>x. x"] a b by simp
qed

text \<open>The canonical value \<open>2^K\<close> with \<open>K = 2^53 + 1\<close> (\<open>fp = 2.0\<close>, \<open>exp = 2^53\<close>):
  the logarithm returned is the double \<open>2^53\<close>, not \<open>K\<close>.\<close>

theorem efp64_log2d_rounds_counterexample:
  "efp64_in_window \<lparr>fp = 0x4000000000000000, exp = 0x20000000000000\<rparr> \<and>
   fp64_eq (efp64_zeroed_fraction \<lparr>fp = 0x4000000000000000, exp = 0x20000000000000\<rparr>)
      0x3ff0000000000000 \<and>
   sint (efp64_full_exponent \<lparr>fp = 0x4000000000000000, exp = 0x20000000000000\<rparr>)
      = 9007199254740993 \<and>
   efp64_log2d (\<lambda>x. x) \<lparr>fp = 0x4000000000000000, exp = 0x20000000000000\<rparr>
      = Some 0x4340000000000000 \<and>
   fp64_value 0x4340000000000000 = 9007199254740992"
proof -
  have a: "efp64_in_window \<lparr>fp = 0x4000000000000000, exp = 0x20000000000000\<rparr>"
    by code_simp
  have b: "fp64_eq (efp64_zeroed_fraction \<lparr>fp = 0x4000000000000000, exp = 0x20000000000000\<rparr>)
      0x3ff0000000000000"
    by code_simp
  have c: "sint (efp64_full_exponent \<lparr>fp = 0x4000000000000000, exp = 0x20000000000000\<rparr>)
      = 9007199254740993"
    by code_simp
  have d: "efp64_log2d (\<lambda>x. x) \<lparr>fp = 0x4000000000000000, exp = 0x20000000000000\<rparr>
      = Some 0x4340000000000000"
    by code_simp
  have f: "fp64_get_biased_exponent 0x4340000000000000 = 0x434"
       "fp64_get_fraction 0x4340000000000000 = 0" "fp64_get_sign 0x4340000000000000 = 0"
    by code_simp+
  have e: "fp64_value 0x4340000000000000 = 9007199254740992"
    by (simp add: fp64_value_def fp64_absval_def fp64_mant_def fp64_expo_def fp64_sgn_def f)
  show ?thesis using a b c d e by simp
qed

section \<open>The invariant and the scaling by a power of two\<close>

text \<open>
  Claim C1. \<^verbatim>\<open>efp64_scale_power2\<close> adds the power to \<open>exp\<close> and does not
  canonicalize. The canonical value \<open>1.0\<close>, scaled by the power 1, becomes the
  non-zero value with significand \<open>1.0\<close> and \<open>exp = 1\<close>: \<open>exp\<close> is not a multiple of
  64, so the result does not satisfy the invariant. It stands for the number
  2, as its conversion to a double shows, and both \<^verbatim>\<open>efp64_is_equal\<close> and
  \<^verbatim>\<open>efp64_cmp\<close> tell it apart from the canonical value of \<open>2.0\<close>.
\<close>

theorem efp64_scale_power2_not_canonical:
  "efp64_canonical (efp64_from_fp64 0x3ff0000000000000) \<and>
   efp64_scale_power2 (efp64_from_fp64 0x3ff0000000000000) 1
     = \<lparr>fp = 0x3ff0000000000000, exp = 1\<rparr> \<and>
   \<not> efp64_is_zero \<lparr>fp = 0x3ff0000000000000, exp = 1\<rparr> \<and>
   lo_part (exp \<lparr>fp = 0x3ff0000000000000, exp = 1\<rparr>) EXP_BITS = 1 \<and>
   \<not> efp64_in_window \<lparr>fp = 0x3ff0000000000000, exp = 1\<rparr> \<and>
   efp64_to_fp64 \<lparr>fp = 0x3ff0000000000000, exp = 1\<rparr> = 0x4000000000000000 \<and>
   efp64_from_fp64 0x4000000000000000 = \<lparr>fp = 0x4000000000000000, exp = 0\<rparr> \<and>
   \<not> efp64_is_equal \<lparr>fp = 0x3ff0000000000000, exp = 1\<rparr> \<lparr>fp = 0x4000000000000000, exp = 0\<rparr> \<and>
   efp64_cmp \<lparr>fp = 0x3ff0000000000000, exp = 1\<rparr> \<lparr>fp = 0x4000000000000000, exp = 0\<rparr> = 1"
  by code_simp

end
